theory Spec2Isabelle
  imports Complex_Main "HOL-Library.Word"
begin

section \<open>Data model of tex\_builder.h\<close>

text \<open>
  The header is modelled for an LP64 target: \<open>int\<close> and \<open>unsigned int\<close> have 32 bits,
  \<open>size_t\<close> has 64 bits and \<open>sizeof(color_t)\<close> is 16 (four \<open>float\<close>s).

  Values of C type \<open>unsigned int\<close> and \<open>size_t\<close> are words, whose arithmetic wraps.
  Values of C type \<open>int\<close> are mathematical integers; an \<open>int\<close> operation whose result
  leaves the 32-bit range is undefined behaviour in C and is the fault
  \<open>SignedOverflow\<close> of the model. Conversions between the two follow two's complement.
\<close>

type_synonym uint = "32 word"
type_synonym size_t = "64 word"

text \<open>
  A \<open>float\<close> is a real number, an infinity or a NaN. Rounding is not modelled: the
  arithmetic operators on floats are parameters of the model (see \<open>libc\<close> below), and
  only the comparisons made by \<open>fmaxf\<close> and \<open>fminf\<close>, which are exact, are defined.
\<close>

datatype c_float = Finite real | PInf | NInf | NaN

record color_t =
  r :: c_float
  g :: c_float
  b :: c_float
  a :: c_float

text \<open>
  The pixel store \<open>color_t* rgb\<close> is a pointer: \<open>None\<close> is the null pointer,
  \<open>Some ps\<close> a block holding the pixels \<open>ps\<close>.
\<close>

type_synonym ptr = "color_t list option"

record texture_t =
  width :: size_t
  height :: size_t
  rgb :: ptr

text \<open>
  Undefined behaviour of the C program is a fault of the model. \<open>AllocationError\<close> is
  the error kind the specification names; it is part of the type so that statements about
  it can be written.
\<close>

datatype fault = SignedOverflow | NullPointer | OutOfBounds | AllocationError

definition INT_MAX :: int where
  "INT_MAX = 2147483647"

definition INT_MIN :: int where
  "INT_MIN = - 2147483648"

text \<open>The result of an \<open>int\<close> operation whose mathematical value is \<open>n\<close>.\<close>

definition s_int :: "int \<Rightarrow> fault + int" where
  "s_int n = (if INT_MIN \<le> n \<and> n \<le> INT_MAX then Inr n else Inl SignedOverflow)"

text \<open>Conversions: \<open>int\<close> to \<open>unsigned int\<close>, \<open>unsigned int\<close> to \<open>int\<close>, \<open>int\<close> to
  \<open>size_t\<close> and \<open>unsigned int\<close> to \<open>size_t\<close>.\<close>

definition to_uint :: "int \<Rightarrow> uint" where
  "to_uint n = word_of_int n"

definition to_int :: "uint \<Rightarrow> int" where
  "to_int u = sint u"

definition int_to_size :: "int \<Rightarrow> size_t" where
  "int_to_size n = word_of_int n"

definition uint_to_size :: "uint \<Rightarrow> size_t" where
  "uint_to_size u = ucast u"

text \<open>A loop counter below its bound is incremented without wrapping.\<close>

lemma unat_succ_less: "(j :: 'n::len word) < e \<Longrightarrow> unat (j + 1) = Suc (unat j)"
proof -
  assume "j < e"
  then have "unat j < unat e" by (simp add: word_less_nat_alt)
  moreover have "unat e < 2 ^ LENGTH('n)" by (rule unsigned_less)
  ultimately have "Suc (unat j) < 2 ^ LENGTH('n)" by linarith
  then show ?thesis by (simp add: unat_word_ariths)
qed

subsection \<open>Memory\<close>

text \<open>\<open>p[k]\<close> read and \<open>p[k] = c\<close>, with the index a \<open>size_t\<close>.\<close>

definition load :: "ptr \<Rightarrow> size_t \<Rightarrow> fault + color_t" where
  "load p k =
     (case p of
        None \<Rightarrow> Inl NullPointer
      | Some ps \<Rightarrow> if unat k < length ps then Inr (ps ! unat k) else Inl OutOfBounds)"

definition store :: "ptr \<Rightarrow> size_t \<Rightarrow> color_t \<Rightarrow> fault + ptr" where
  "store p k c =
     (case p of
        None \<Rightarrow> Inl NullPointer
      | Some ps \<Rightarrow> if unat k < length ps then Inr (Some (ps[unat k := c])) else Inl OutOfBounds)"

text \<open>
  \<open>malloc\<close> is a parameter: an allocator answers a request of \<open>n\<close> bytes with \<open>None\<close>
  (no memory) or with the value found in the cells of the fresh block, whose content C
  leaves indeterminate. A block of \<open>n\<close> bytes holds \<open>n div 16\<close> pixels.
\<close>

type_synonym allocator = "size_t \<Rightarrow> color_t option"

definition malloc :: "allocator \<Rightarrow> size_t \<Rightarrow> ptr" where
  "malloc m n = (case m n of None \<Rightarrow> None | Some junk \<Rightarrow> Some (replicate (unat n div 16) junk))"

definition sizeof_color_t :: size_t where
  "sizeof_color_t = 16"

section \<open>texture\<close>

text \<open>
  \<^verbatim>\<open>for (int i = 0; i < (w * h); i++) { tex.rgb[i] = rgba; }\<close>
  with \<open>n\<close> the value of \<open>w * h\<close>.
\<close>

function texture_fill :: "int \<Rightarrow> color_t \<Rightarrow> int \<Rightarrow> ptr \<Rightarrow> fault + ptr" where
  "texture_fill n rgba i p =
     (if i < n then
        (case store p (int_to_size i) rgba of
           Inl f \<Rightarrow> Inl f
         | Inr p' \<Rightarrow>
             (case s_int (i + 1) of
                Inl f \<Rightarrow> Inl f
              | Inr i' \<Rightarrow> texture_fill n rgba i' p'))
      else Inr p)"
  by pat_completeness auto
termination
  by (relation "measure (\<lambda>(n, rgba, i, p). nat (n - i))")
     (auto simp: s_int_def split: if_splits)

definition texture :: "allocator \<Rightarrow> int \<Rightarrow> int \<Rightarrow> color_t \<Rightarrow> fault + texture_t" where
  "texture m w h rgba =
     (case s_int (w * h) of
        Inl f \<Rightarrow> Inl f
      | Inr n \<Rightarrow>
          (case texture_fill n rgba 0 (malloc m (int_to_size n * sizeof_color_t)) of
             Inl f \<Rightarrow> Inl f
           | Inr p \<Rightarrow> Inr \<lparr>width = int_to_size w, height = int_to_size h, rgb = p\<rparr>))"

section \<open>rect\<close>

text \<open>
  \<^verbatim>\<open>for (unsigned int j = x; j < x + width; j++) { tex->rgb[i * tex->width + j] = color; }\<close>
  with \<open>xe\<close> the value of \<open>x + width\<close>.
\<close>

function rect_cols :: "size_t \<Rightarrow> uint \<Rightarrow> uint \<Rightarrow> color_t \<Rightarrow> uint \<Rightarrow> ptr \<Rightarrow> fault + ptr" where
  "rect_cols W i xe color j p =
     (if j < xe then
        (case store p (uint_to_size i * W + uint_to_size j) color of
           Inl f \<Rightarrow> Inl f
         | Inr p' \<Rightarrow> rect_cols W i xe color (j + 1) p')
      else Inr p)"
  by pat_completeness auto
termination
  by (relation "measure (\<lambda>(W, i, xe, color, j, p). unat xe - unat j)")
     (auto simp: unat_succ_less word_less_nat_alt)

text \<open>\<^verbatim>\<open>for (unsigned int i = y; i < y + height; i++) { ... }\<close> with \<open>ye\<close> the value
  of \<open>y + height\<close>.\<close>

function rect_rows :: "size_t \<Rightarrow> uint \<Rightarrow> uint \<Rightarrow> uint \<Rightarrow> color_t \<Rightarrow> uint \<Rightarrow> ptr \<Rightarrow> fault + ptr" where
  "rect_rows W x xe ye color i p =
     (if i < ye then
        (case rect_cols W i xe color x p of
           Inl f \<Rightarrow> Inl f
         | Inr p' \<Rightarrow> rect_rows W x xe ye color (i + 1) p')
      else Inr p)"
  by pat_completeness auto
termination
  by (relation "measure (\<lambda>(W, x, xe, ye, color, i, p). unat ye - unat i)")
     (auto simp: unat_succ_less word_less_nat_alt)

definition rect :: "texture_t \<Rightarrow> uint \<Rightarrow> uint \<Rightarrow> uint \<Rightarrow> uint \<Rightarrow> color_t \<Rightarrow> fault + texture_t" where
  "rect tex x y rw rh color =
     (if uint_to_size (x + rw) > width tex \<or> uint_to_size (y + rh) > height tex then Inr tex
      else
        (case rect_rows (width tex) x (x + rw) (y + rh) color y (rgb tex) of
           Inl f \<Rightarrow> Inl f
         | Inr p \<Rightarrow> Inr (tex\<lparr>rgb := p\<rparr>)))"

section \<open>noise\<close>

text \<open>
  The C library is a parameter of the model. \<open>srand seed\<close> is the state of the generator
  after \<^verbatim>\<open>srand(seed)\<close>; \<open>rand st\<close> is the number \<^verbatim>\<open>rand()\<close> returns in state
  \<open>st\<close> and the state it leaves. The float operators are \<open>+\<close>, \<open>-\<close>, \<open>*\<close>, \<open>/\<close> and the
  conversion \<^verbatim>\<open>(float)\<close> of an \<open>int\<close>.
\<close>

record 'st libc =
  srand :: "uint \<Rightarrow> 'st"
  rand :: "'st \<Rightarrow> int \<times> 'st"
  RAND_MAX :: int
  fadd :: "c_float \<Rightarrow> c_float \<Rightarrow> c_float"
  fsub :: "c_float \<Rightarrow> c_float \<Rightarrow> c_float"
  fmul :: "c_float \<Rightarrow> c_float \<Rightarrow> c_float"
  fdiv :: "c_float \<Rightarrow> c_float \<Rightarrow> c_float"
  int_to_float :: "int \<Rightarrow> c_float"

text \<open>The ordered comparison \<open>\<le>\<close> of floats: false when an operand is a NaN.\<close>

fun fle :: "c_float \<Rightarrow> c_float \<Rightarrow> bool" where
  "fle NaN v = False"
| "fle u NaN = False"
| "fle NInf v = True"
| "fle u PInf = True"
| "fle (Finite u) (Finite v) = (u \<le> v)"
| "fle u v = False"

text \<open>\<open>fmaxf\<close> and \<open>fminf\<close> of C99: when one argument is a NaN, the other is returned.\<close>

definition fmaxf :: "c_float \<Rightarrow> c_float \<Rightarrow> c_float" where
  "fmaxf u v = (if u = NaN then v else if v = NaN then u else if fle u v then v else u)"

definition fminf :: "c_float \<Rightarrow> c_float \<Rightarrow> c_float" where
  "fminf u v = (if u = NaN then v else if v = NaN then u else if fle u v then u else v)"

text \<open>\<^verbatim>\<open>v + intensity * ((float)rand() / (float) RAND_MAX - 0.5f)\<close>\<close>

definition noise_channel :: "'st libc \<Rightarrow> c_float \<Rightarrow> c_float \<Rightarrow> 'st \<Rightarrow> c_float \<times> 'st" where
  "noise_channel L intensity v st =
     (case rand L st of
        (n, st') \<Rightarrow>
          (fadd L v
             (fmul L intensity
                (fsub L (fdiv L (int_to_float L n) (int_to_float L (RAND_MAX L)))
                   (Finite (1 / 2)))),
           st'))"

text \<open>
  The body of the loop on one pixel: the three additions, in the order r, g, b, then the
  three clamps. The alpha field is not assigned.
\<close>

definition noise_pixel :: "'st libc \<Rightarrow> c_float \<Rightarrow> color_t \<Rightarrow> 'st \<Rightarrow> color_t \<times> 'st" where
  "noise_pixel L intensity px st =
     (case noise_channel L intensity (r px) st of
        (r1, st1) \<Rightarrow>
          (case noise_channel L intensity (g px) st1 of
             (g1, st2) \<Rightarrow>
               (case noise_channel L intensity (b px) st2 of
                  (b1, st3) \<Rightarrow>
                    (px\<lparr>r := fminf (fmaxf r1 (Finite 0)) (Finite 1),
                        g := fminf (fmaxf g1 (Finite 0)) (Finite 1),
                        b := fminf (fmaxf b1 (Finite 0)) (Finite 1)\<rparr>,
                     st3))))"

text \<open>\<^verbatim>\<open>for (size_t i = 0; i < tex->width * tex->height; i++) { ... }\<close> with \<open>n\<close> the
  value of \<open>tex->width * tex->height\<close>.\<close>

function noise_loop ::
  "'st libc \<Rightarrow> c_float \<Rightarrow> size_t \<Rightarrow> size_t \<Rightarrow> ptr \<Rightarrow> 'st \<Rightarrow> fault + ptr \<times> 'st" where
  "noise_loop L intensity n i p st =
     (if i < n then
        (case load p i of
           Inl f \<Rightarrow> Inl f
         | Inr px \<Rightarrow>
             (case noise_pixel L intensity px st of
                (px', st') \<Rightarrow>
                  (case store p i px' of
                     Inl f \<Rightarrow> Inl f
                   | Inr p' \<Rightarrow> noise_loop L intensity n (i + 1) p' st')))
      else Inr (p, st))"
  by pat_completeness auto
termination
  by (relation "measure (\<lambda>(L, intensity, n, i, p, st). unat n - unat i)")
     (auto simp: unat_succ_less word_less_nat_alt)

text \<open>
  \<open>noise\<close> is the function \<open>_noise\<close>. It takes the state \<open>st0\<close> the generator is in when
  the function is called and returns the state it leaves with the texture.
\<close>

definition noise :: "'st libc \<Rightarrow> 'st \<Rightarrow> texture_t \<Rightarrow> c_float \<Rightarrow> fault + texture_t \<times> 'st" where
  "noise L st0 tex intensity =
     (case noise_loop L intensity (width tex * height tex) 0 (rgb tex) (srand L 1) of
        Inl f \<Rightarrow> Inl f
      | Inr (p, st) \<Rightarrow> Inr (tex\<lparr>rgb := p\<rparr>, st))"

section \<open>circle\<close>

text \<open>
  The body of both inner loops, for a column \<open>i\<close> and the rows \<open>ya\<close> and \<open>yb\<close>:
  \<^verbatim>\<open>if (i >= 0 && i < tex->width && ya >= 0 && ya < tex->height) tex->rgb[ya * tex->width + i] = color;\<close>
  and the same for \<open>yb\<close>. The rows are \<open>unsigned int\<close>, \<open>i\<close> is an \<open>int\<close> and is converted
  to \<open>size_t\<close> for the comparison with the width and in the index.

  The loop is \<^verbatim>\<open>for (int i = ...; i <= e; i++)\<close> with \<open>e\<close> an \<open>unsigned int\<close>: the
  comparison converts \<open>i\<close> to \<open>unsigned int\<close>. When \<open>e\<close> is the largest \<open>unsigned int\<close> the
  test never fails; the run then ends when \<open>i++\<close> overflows.
\<close>

definition circle_plot :: "size_t \<Rightarrow> size_t \<Rightarrow> uint \<Rightarrow> color_t \<Rightarrow> int \<Rightarrow> ptr \<Rightarrow> fault + ptr" where
  "circle_plot W H ya color i p =
     (if 0 \<le> i \<and> int_to_size i < W \<and> 0 \<le> ya \<and> uint_to_size ya < H
      then store p (uint_to_size ya * W + int_to_size i) color
      else Inr p)"

function circle_span ::
  "size_t \<Rightarrow> size_t \<Rightarrow> uint \<Rightarrow> uint \<Rightarrow> uint \<Rightarrow> color_t \<Rightarrow> int \<Rightarrow> ptr \<Rightarrow> fault + ptr" where
  "circle_span W H e ya yb color i p =
     (if to_uint i \<le> e then
        (case circle_plot W H ya color i p of
           Inl f \<Rightarrow> Inl f
         | Inr p1 \<Rightarrow>
             (case circle_plot W H yb color i p1 of
                Inl f \<Rightarrow> Inl f
              | Inr p2 \<Rightarrow>
                  (case s_int (i + 1) of
                     Inl f \<Rightarrow> Inl f
                   | Inr i' \<Rightarrow> circle_span W H e ya yb color i' p2)))
      else Inr p)"
  by pat_completeness auto
termination
  by (relation "measure (\<lambda>(W, H, e, ya, yb, color, i, p). nat (INT_MAX - i))")
     (auto simp: s_int_def INT_MAX_def split: if_splits)

text \<open>
  The two conditionals that end the body of the \<open>while\<close> loop, on the variables
  \<open>(cx, cy, dx, dy, err)\<close>. In \<^verbatim>\<open>err += dx - (radius << 1)\<close> the operands are converted
  to \<open>unsigned int\<close> and the sum back to \<open>int\<close>.
\<close>

definition circle_step ::
  "uint \<Rightarrow> int \<times> int \<times> int \<times> int \<times> int \<Rightarrow> fault + int \<times> int \<times> int \<times> int \<times> int" where
  "circle_step radius s =
     (case s of
        (cx, cy, dx, dy, err) \<Rightarrow>
          (case (if err \<le> 0 then
                   (case s_int (cy + 1) of
                      Inl f \<Rightarrow> Inl f
                    | Inr cy' \<Rightarrow>
                        (case s_int (err + dy) of
                           Inl f \<Rightarrow> Inl f
                         | Inr err' \<Rightarrow>
                             (case s_int (dy + 2) of
                                Inl f \<Rightarrow> Inl f
                              | Inr dy' \<Rightarrow> Inr (cx, cy', dx, dy', err'))))
                 else Inr s) of
             Inl f \<Rightarrow> Inl f
           | Inr (cx1, cy1, dx1, dy1, err1) \<Rightarrow>
               if err1 > 0 then
                 (case s_int (cx1 - 1) of
                    Inl f \<Rightarrow> Inl f
                  | Inr cx' \<Rightarrow>
                      (case s_int (dx1 + 2) of
                         Inl f \<Rightarrow> Inl f
                       | Inr dx' \<Rightarrow>
                           Inr (cx', cy1, dx', dy1,
                                to_int (to_uint err1 + (to_uint dx' - push_bit 1 radius)))))
               else Inr (cx1, cy1, dx1, dy1, err1)))"

lemma circle_step_decreases:
  "circle_step radius (cx, cy, dx, dy, err) = Inr (cx', cy', dx', dy', err') \<Longrightarrow>
   cx' - cy' < cx - cy"
  by (auto simp: circle_step_def s_int_def split: if_splits sum.splits)

text \<open>\<^verbatim>\<open>while (cx >= cy) { ... }\<close>\<close>

function circle_loop ::
  "size_t \<Rightarrow> size_t \<Rightarrow> uint \<Rightarrow> uint \<Rightarrow> uint \<Rightarrow> color_t \<Rightarrow>
   int \<times> int \<times> int \<times> int \<times> int \<Rightarrow> ptr \<Rightarrow> fault + ptr" where
  "circle_loop W H x y radius color (cx, cy, dx, dy, err) p =
     (if cx \<ge> cy then
        (case circle_span W H (x + to_uint cx) (y + to_uint cy) (y - to_uint cy) color
                (to_int (x - to_uint cx)) p of
           Inl f \<Rightarrow> Inl f
         | Inr p1 \<Rightarrow>
             (case circle_span W H (x + to_uint cy) (y + to_uint cx) (y - to_uint cx) color
                     (to_int (x - to_uint cy)) p1 of
                Inl f \<Rightarrow> Inl f
              | Inr p2 \<Rightarrow>
                  (case circle_step radius (cx, cy, dx, dy, err) of
                     Inl f \<Rightarrow> Inl f
                   | Inr s' \<Rightarrow> circle_loop W H x y radius color s' p2)))
      else Inr p)"
  by pat_completeness auto
termination
proof (relation "measure (\<lambda>(W, H, x, y, radius, color, (cx, cy, dx, dy, err), p). nat (cx - cy + 1))")
  show "wf (measure (\<lambda>(W, H, x, y, radius, color, (cx, cy, dx, dy, err), p). nat (cx - cy + 1)))"
    by simp
next
  fix W H :: size_t and x y radius :: uint and color :: color_t
    and cx cy dx dy err :: int and p p1 p2 :: ptr and s' :: "int \<times> int \<times> int \<times> int \<times> int"
  assume le: "cy \<le> cx"
    and step: "circle_step radius (cx, cy, dx, dy, err) = Inr s'"
  obtain cx' cy' dx' dy' err' where s': "s' = (cx', cy', dx', dy', err')"
    by (cases s') auto
  from step s' have "cx' - cy' < cx - cy"
    by (auto dest: circle_step_decreases)
  with le s'
  show "((W, H, x, y, radius, color, s', p2), (W, H, x, y, radius, color, (cx, cy, dx, dy, err), p))
        \<in> measure (\<lambda>(W, H, x, y, radius, color, (cx, cy, dx, dy, err), p). nat (cx - cy + 1))"
    by simp
qed

text \<open>
  \<open>circle\<close> is the function \<open>_circle\<close>. \<^verbatim>\<open>int cx = radius - 1\<close> and
  \<^verbatim>\<open>int err = dx - (radius << 1)\<close> are computed in \<open>unsigned int\<close> and converted.
\<close>

definition circle :: "texture_t \<Rightarrow> uint \<Rightarrow> uint \<Rightarrow> uint \<Rightarrow> color_t \<Rightarrow> fault + texture_t" where
  "circle tex x y radius color =
     (case circle_loop (width tex) (height tex) x y radius color
             (to_int (radius - 1), 0, 1, 1, to_int (to_uint 1 - push_bit 1 radius)) (rgb tex) of
        Inl f \<Rightarrow> Inl f
      | Inr p \<Rightarrow> Inr (tex\<lparr>rgb := p\<rparr>))"

section \<open>mirror and flip\<close>

text \<open>\<^verbatim>\<open>for (size_t x = 0; x < tex->width; x++) { mirrored[y * tex->width + x] = tex->rgb[y * tex->width + (tex->width - 1 - x)]; }\<close>\<close>

function mirror_cols :: "size_t \<Rightarrow> ptr \<Rightarrow> size_t \<Rightarrow> size_t \<Rightarrow> ptr \<Rightarrow> fault + ptr" where
  "mirror_cols W src y x mirrored =
     (if x < W then
        (case load src (y * W + (W - 1 - x)) of
           Inl f \<Rightarrow> Inl f
         | Inr v \<Rightarrow>
             (case store mirrored (y * W + x) v of
                Inl f \<Rightarrow> Inl f
              | Inr mirrored' \<Rightarrow> mirror_cols W src y (x + 1) mirrored'))
      else Inr mirrored)"
  by pat_completeness auto
termination
  by (relation "measure (\<lambda>(W, src, y, x, mirrored). unat W - unat x)")
     (auto simp: unat_succ_less word_less_nat_alt)

function mirror_rows :: "size_t \<Rightarrow> size_t \<Rightarrow> ptr \<Rightarrow> size_t \<Rightarrow> ptr \<Rightarrow> fault + ptr" where
  "mirror_rows W H src y mirrored =
     (if y < H then
        (case mirror_cols W src y 0 mirrored of
           Inl f \<Rightarrow> Inl f
         | Inr mirrored' \<Rightarrow> mirror_rows W H src (y + 1) mirrored')
      else Inr mirrored)"
  by pat_completeness auto
termination
  by (relation "measure (\<lambda>(W, H, src, y, mirrored). unat H - unat y)")
     (auto simp: unat_succ_less word_less_nat_alt)

text \<open>\<^verbatim>\<open>for (size_t i = 0; i < tex->width * tex->height; i++) { tex->rgb[i] = scratch[i]; }\<close>
  with \<open>n\<close> the value of \<open>tex->width * tex->height\<close>.\<close>

function copy_back :: "size_t \<Rightarrow> ptr \<Rightarrow> size_t \<Rightarrow> ptr \<Rightarrow> fault + ptr" where
  "copy_back n scratch i p =
     (if i < n then
        (case load scratch i of
           Inl f \<Rightarrow> Inl f
         | Inr v \<Rightarrow>
             (case store p i v of
                Inl f \<Rightarrow> Inl f
              | Inr p' \<Rightarrow> copy_back n scratch (i + 1) p'))
      else Inr p)"
  by pat_completeness auto
termination
  by (relation "measure (\<lambda>(n, scratch, i, p). unat n - unat i)")
     (auto simp: unat_succ_less word_less_nat_alt)

text \<open>\<open>mirror\<close> is the function \<open>_mirror\<close>; \<open>free\<close> has no effect on the model.\<close>

definition mirror :: "allocator \<Rightarrow> texture_t \<Rightarrow> fault + texture_t" where
  "mirror m tex =
     (case mirror_rows (width tex) (height tex) (rgb tex) 0
             (malloc m (width tex * height tex * sizeof_color_t)) of
        Inl f \<Rightarrow> Inl f
      | Inr mirrored \<Rightarrow>
          (case copy_back (width tex * height tex) mirrored 0 (rgb tex) of
             Inl f \<Rightarrow> Inl f
           | Inr p \<Rightarrow> Inr (tex\<lparr>rgb := p\<rparr>)))"

text \<open>\<^verbatim>\<open>for (size_t x = 0; x < tex->width; x++) { flipped[y * tex->width + x] = tex->rgb[(tex->height - 1 - y) * tex->width + x]; }\<close>\<close>

function flip_cols :: "size_t \<Rightarrow> size_t \<Rightarrow> ptr \<Rightarrow> size_t \<Rightarrow> size_t \<Rightarrow> ptr \<Rightarrow> fault + ptr" where
  "flip_cols W H src y x flipped =
     (if x < W then
        (case load src ((H - 1 - y) * W + x) of
           Inl f \<Rightarrow> Inl f
         | Inr v \<Rightarrow>
             (case store flipped (y * W + x) v of
                Inl f \<Rightarrow> Inl f
              | Inr flipped' \<Rightarrow> flip_cols W H src y (x + 1) flipped'))
      else Inr flipped)"
  by pat_completeness auto
termination
  by (relation "measure (\<lambda>(W, H, src, y, x, flipped). unat W - unat x)")
     (auto simp: unat_succ_less word_less_nat_alt)

function flip_rows :: "size_t \<Rightarrow> size_t \<Rightarrow> ptr \<Rightarrow> size_t \<Rightarrow> ptr \<Rightarrow> fault + ptr" where
  "flip_rows W H src y flipped =
     (if y < H then
        (case flip_cols W H src y 0 flipped of
           Inl f \<Rightarrow> Inl f
         | Inr flipped' \<Rightarrow> flip_rows W H src (y + 1) flipped')
      else Inr flipped)"
  by pat_completeness auto
termination
  by (relation "measure (\<lambda>(W, H, src, y, flipped). unat H - unat y)")
     (auto simp: unat_succ_less word_less_nat_alt)

text \<open>\<open>flip\<close> is the function \<open>_flip\<close>.\<close>

definition flip :: "allocator \<Rightarrow> texture_t \<Rightarrow> fault + texture_t" where
  "flip m tex =
     (case flip_rows (width tex) (height tex) (rgb tex) 0
             (malloc m (width tex * height tex * sizeof_color_t)) of
        Inl f \<Rightarrow> Inl f
      | Inr flipped \<Rightarrow>
          (case copy_back (width tex * height tex) flipped 0 (rgb tex) of
             Inl f \<Rightarrow> Inl f
           | Inr p \<Rightarrow> Inr (tex\<lparr>rgb := p\<rparr>)))"

declare texture_fill.simps [simp del] rect_cols.simps [simp del] rect_rows.simps [simp del]
  noise_loop.simps [simp del] circle_span.simps [simp del] circle_loop.simps [simp del]
  mirror_cols.simps [simp del] mirror_rows.simps [simp del] copy_back.simps [simp del]
  flip_cols.simps [simp del] flip_rows.simps [simp del]

section \<open>Vocabulary of the properties\<close>

text \<open>
  A buffer is well formed when its store is a block of \<open>width * height\<close> pixels that fits
  the 64-bit address space. \<open>pixel tex j i\<close> is the pixel in column \<open>j\<close> of row \<open>i\<close>.
\<close>

definition pixels :: "texture_t \<Rightarrow> color_t list" where
  "pixels tex = (case rgb tex of None \<Rightarrow> [] | Some ps \<Rightarrow> ps)"

definition wf_texture :: "texture_t \<Rightarrow> bool" where
  "wf_texture tex =
     (case rgb tex of
        None \<Rightarrow> False
      | Some ps \<Rightarrow>
          length ps = unat (width tex) * unat (height tex) \<and>
          unat sizeof_color_t * length ps < 2 ^ 64)"

definition pixel :: "texture_t \<Rightarrow> nat \<Rightarrow> nat \<Rightarrow> color_t" where
  "pixel tex j i = pixels tex ! (i * unat (width tex) + j)"

text \<open>A channel value in the interval \<open>[0, 1]\<close>: a real number between 0 and 1.\<close>

definition in_unit :: "c_float \<Rightarrow> bool" where
  "in_unit v = (case v of Finite q \<Rightarrow> 0 \<le> q \<and> q \<le> 1 | PInf \<Rightarrow> False | NInf \<Rightarrow> False | NaN \<Rightarrow> False)"

definition clamped :: "color_t \<Rightarrow> bool" where
  "clamped px \<longleftrightarrow> in_unit (r px) \<and> in_unit (g px) \<and> in_unit (b px)"

text \<open>
  The pixel that \<open>_mirror\<close> copies to index \<open>k\<close> of a buffer of width \<open>W\<close>, and the
  pixel that \<open>_flip\<close> copies to index \<open>k\<close> of a buffer of width \<open>W\<close> and height \<open>H\<close>.
\<close>

definition mirror_index :: "nat \<Rightarrow> nat \<Rightarrow> nat" where
  "mirror_index W k = (k div W) * W + (W - 1 - k mod W)"

definition flip_index :: "nat \<Rightarrow> nat \<Rightarrow> nat \<Rightarrow> nat" where
  "flip_index W H k = (H - 1 - k div W) * W + k mod W"

text \<open>
  The pixel in column \<open>j\<close> of row \<open>i\<close> is within Euclidean distance \<open>radius\<close> of the centre
  \<open>(x, y)\<close>; \<open>in_disk\<close> says so of the pixel at index \<open>k\<close> of a store of width \<open>W\<close>.
\<close>

definition within_radius :: "uint \<Rightarrow> uint \<Rightarrow> uint \<Rightarrow> nat \<Rightarrow> nat \<Rightarrow> bool" where
  "within_radius x y radius j i \<longleftrightarrow>
     (int j - uint x)\<^sup>2 + (int i - uint y)\<^sup>2 \<le> (uint radius)\<^sup>2"

definition in_disk :: "nat \<Rightarrow> uint \<Rightarrow> uint \<Rightarrow> uint \<Rightarrow> nat \<Rightarrow> bool" where
  "in_disk W x y radius k = within_radius x y radius (k mod W) (k div W)"

text \<open>\<open>ps'\<close> differs from \<open>ps\<close> only at indices that satisfy \<open>P\<close>.\<close>

definition only_changed :: "(nat \<Rightarrow> bool) \<Rightarrow> color_t list \<Rightarrow> color_t list \<Rightarrow> bool" where
  "only_changed P ps ps' \<longleftrightarrow>
     length ps' = length ps \<and> (\<forall>k < length ps. ps' ! k \<noteq> ps ! k \<longrightarrow> P k)"

text \<open>
  The invariant of the \<open>while\<close> loop for radius \<open>R\<close>: \<open>dx\<close>, \<open>dy\<close> and \<open>err\<close> are functions of
  \<open>cx\<close> and \<open>cy\<close>, \<open>err\<close> is \<open>cx\<^sup>2 + cy\<^sup>2 - R\<^sup>2\<close>, and it is not positive when the
  guard \<open>cx >= cy\<close> holds: the point \<open>(cx, cy)\<close> is then inside the circle.
\<close>

definition circle_inv :: "int \<Rightarrow> int \<times> int \<times> int \<times> int \<times> int \<Rightarrow> bool" where
  "circle_inv R s =
     (case s of (cx, cy, dx, dy, err) \<Rightarrow>
        0 \<le> cy \<and> cy \<le> R \<and> - 1 \<le> cx \<and> cx < R \<and>
        dx = 2 * (R - 1 - cx) + 1 \<and> dy = 2 * cy + 1 \<and>
        err = cx * cx + cy * cy - R * R \<and> - (2 * R) \<le> err \<and> err \<le> 2 * R \<and>
        (cy \<le> cx \<longrightarrow> err \<le> 0))"

subsection \<open>Example values\<close>

definition black :: color_t where
  "black = \<lparr>r = Finite 0, g = Finite 0, b = Finite 0, a = Finite 1\<rparr>"

definition white :: color_t where
  "white = \<lparr>r = Finite 1, g = Finite 1, b = Finite 1, a = Finite 1\<rparr>"

definition red :: color_t where
  "red = \<lparr>r = Finite 1, g = Finite 0, b = Finite 0, a = Finite 1\<rparr>"

definition green :: color_t where
  "green = \<lparr>r = Finite 0, g = Finite 1, b = Finite 0, a = Finite 1\<rparr>"

definition solid :: "nat \<Rightarrow> nat \<Rightarrow> color_t \<Rightarrow> texture_t" where
  "solid w h c = \<lparr>width = of_nat w, height = of_nat h, rgb = Some (replicate (w * h) c)\<rparr>"

text \<open>A 3 by 2 buffer with six pixels, not symmetric under either operation.\<close>

definition stripes :: texture_t where
  "stripes = \<lparr>width = 3, height = 2, rgb = Some [red, green, black, white, red, green]\<rparr>"

text \<open>
  An example of a C library, used to instantiate the theorems: a linear congruential
  generator, and float operators that are exact on real numbers and yield a NaN otherwise.
\<close>

fun exact :: "(real \<Rightarrow> real \<Rightarrow> real) \<Rightarrow> c_float \<Rightarrow> c_float \<Rightarrow> c_float" where
  "exact f (Finite u) (Finite v) = Finite (f u v)"
| "exact f u v = NaN"

definition example_libc :: "uint libc" where
  "example_libc =
     \<lparr>srand = (\<lambda>seed. seed),
      rand = (\<lambda>st. (uint (st * 1103515245 + 12345) mod 32768, st * 1103515245 + 12345)),
      RAND_MAX = 32767,
      fadd = exact (+), fsub = exact (-), fmul = exact (*), fdiv = exact (/),
      int_to_float = (\<lambda>n. Finite (of_int n))\<rparr>"

section \<open>Arithmetic of the integer types\<close>

lemma unat_uint_to_size: "unat (uint_to_size u) = unat u"
proof -
  have "unat u < 2 ^ 32" using unsigned_less [of u] by simp
  then have "unat u < 2 ^ 64" by simp
  then show ?thesis
    by (simp add: uint_to_size_def unsigned_ucast_eq take_bit_nat_eq_self)
qed

lemma unat_int_to_size: "0 \<le> n \<Longrightarrow> n < 2 ^ 64 \<Longrightarrow> unat (int_to_size n) = nat n"
  by (simp add: int_to_size_def unsigned_of_int take_bit_int_eq_self)

lemma to_int_eq: "to_int u = (if uint u < 2 ^ 31 then uint u else uint u - 2 ^ 32)"
proof -
  have lt: "uint u < 2 ^ 32" using uint_lt2p [of u] by simp
  have ge: "0 \<le> uint u" by simp
  have "sint u = take_bit 32 (uint u + 2 ^ 31) - 2 ^ 31"
    by (simp add: sint_uint signed_take_bit_eq_take_bit_shift)
  also have "\<dots> = (uint u + 2 ^ 31) mod 2 ^ 32 - 2 ^ 31"
    by (simp add: take_bit_eq_mod)
  also have "\<dots> = (if uint u < 2 ^ 31 then uint u else uint u - 2 ^ 32)"
  proof (cases "uint u < 2 ^ 31")
    case True
    then have "(uint u + 2 ^ 31) mod 2 ^ 32 = uint u + 2 ^ 31"
      using ge by (intro mod_pos_pos_trivial) auto
    with True show ?thesis by simp
  next
    case False
    then have "(uint u + 2 ^ 31) mod 2 ^ 32 = uint u + 2 ^ 31 - 2 ^ 32"
      using lt by (subst mod_pos_geq) (auto intro: mod_pos_pos_trivial)
    with False show ?thesis by simp
  qed
  finally show ?thesis
    by (simp only: to_int_def)
qed

lemma to_int_to_uint: "INT_MIN \<le> k \<Longrightarrow> k \<le> INT_MAX \<Longrightarrow> to_int (to_uint k) = k"
  by (simp add: to_int_def to_uint_def signed_of_int signed_take_bit_int_eq_self
      INT_MIN_def INT_MAX_def)

lemma to_int_range: "to_int u < 2 ^ 31" and to_int_lower: "- (2 ^ 31) \<le> to_int u"
  using sint_lt [of u] sint_ge [of u] by (simp_all add: to_int_def)

lemma uint_to_uint: "0 \<le> n \<Longrightarrow> n < 2 ^ 32 \<Longrightarrow> uint (to_uint n) = n"
  by (simp add: to_uint_def uint_word_of_int)

lemma uint_plus_to_uint:
  assumes "0 \<le> uint u + c" and "uint u + c < 2 ^ 32"
  shows "uint (u + to_uint c) = uint u + c"
proof -
  have "u + to_uint c = word_of_int (uint u + c)" by (simp add: to_uint_def)
  then have "uint (u + to_uint c) = (uint u + c) mod 2 ^ 32"
    by (simp only: uint_word_of_int) simp
  with assms show ?thesis by simp
qed

lemma uint_minus_to_uint:
  assumes "0 \<le> uint u - c" and "uint u - c < 2 ^ 32"
  shows "uint (u - to_uint c) = uint u - c"
proof -
  have "u - to_uint c = word_of_int (uint u - c)" by (simp add: to_uint_def)
  then have "uint (u - to_uint c) = (uint u - c) mod 2 ^ 32"
    by (simp only: uint_word_of_int) simp
  with assms show ?thesis by simp
qed

lemma uint_minus_to_uint_wraps:
  assumes "uint u - c < 0" and "- (2 ^ 32) \<le> uint u - c"
  shows "uint (u - to_uint c) = uint u - c + 2 ^ 32"
proof -
  have "u - to_uint c = word_of_int (uint u - c)" by (simp add: to_uint_def)
  then have "uint (u - to_uint c) = (uint u - c) mod 2 ^ 32"
    by (simp only: uint_word_of_int) simp
  also have "\<dots> = (uint u - c + 2 ^ 32) mod 2 ^ 32" by simp
  also have "\<dots> = uint u - c + 2 ^ 32" using assms by (intro mod_pos_pos_trivial) auto
  finally show ?thesis .
qed

lemma to_uint_le_iff: "0 \<le> i \<Longrightarrow> i < 2 ^ 32 \<Longrightarrow> to_uint i \<le> e \<longleftrightarrow> i \<le> uint e"
  by (simp add: word_le_def uint_to_uint)

text \<open>A \<open>size_t\<close> index \<open>u * v + w\<close> that does not exceed 64 bits is the number it denotes.\<close>

lemma unat_mult_add:
  fixes u v w :: size_t
  assumes "unat u * unat v + unat w < 2 ^ 64"
  shows "unat (u * v + w) = unat u * unat v + unat w"
proof -
  from assms have "unat u * unat v < 2 ^ 64" by linarith
  then have "unat (u * v) = unat u * unat v" by (simp add: unat_word_ariths)
  with assms show ?thesis by (simp add: unat_word_ariths)
qed

lemma unat_last_minus:
  fixes W x :: size_t
  assumes "x < W"
  shows "unat (W - 1 - x) = unat W - 1 - unat x"
proof -
  from assms have ux: "unat x < unat W" by (simp add: word_less_nat_alt)
  then have "1 \<le> W" by (simp add: word_le_nat_alt)
  then have w1: "unat (W - 1) = unat W - 1" by (simp add: unat_sub)
  with ux have "x \<le> W - 1" by (simp add: word_le_nat_alt)
  then show ?thesis using w1 by (simp add: unat_sub)
qed

lemma row_col_less:
  fixes W H :: nat
  assumes "row < H" and "col < W"
  shows "row * W + col < W * H"
proof -
  have "row * W + col < (row + 1) * W" using assms(2) by simp
  also have "\<dots> \<le> H * W" using assms(1) by (intro mult_le_mono1) simp
  finally show ?thesis by (simp add: mult.commute)
qed

lemma div_less_rows:
  fixes W H :: nat
  assumes "k < W * H"
  shows "k div W < H" and "0 < W" and "k mod W < W"
proof -
  from assms show "0 < W" by (cases W) auto
  then show "k mod W < W" by simp
  from assms show "k div W < H"
    by (simp add: less_mult_imp_div_less mult.commute)
qed

lemma square_le:
  fixes c d :: int
  assumes "- c \<le> d" and "d \<le> c"
  shows "d\<^sup>2 \<le> c\<^sup>2"
proof -
  from assms have "\<bar>d\<bar> \<le> \<bar>c\<bar>" by simp
  then show ?thesis by (simp only: abs_le_square_iff)
qed

lemma wrap_bounds:
  fixes v c R :: int
  assumes "0 \<le> v" and "\<not> c \<le> v" and "c < R" and "v + R < 2 ^ 31"
  shows "v - c < 0" and "- (2 ^ 32) \<le> v - c" and "2 ^ 31 \<le> v - c + 2 ^ 32"
  using assms by simp_all

lemma wrap_bounds_row:
  fixes v c R h :: int
  assumes "0 \<le> v" and "\<not> c \<le> v" and "c < R" and "h + R \<le> 2 ^ 32" and "0 \<le> h"
  shows "v - c < 0" and "- (2 ^ 32) \<le> v - c" and "h \<le> v - c + 2 ^ 32"
  using assms by simp_all

lemma wf_textureE:
  assumes "wf_texture tex"
  obtains ps where "rgb tex = Some ps"
    and "length ps = unat (width tex) * unat (height tex)"
    and "16 * length ps < 2 ^ 64"
proof (cases "rgb tex")
  case None
  with assms show ?thesis by (simp add: wf_texture_def)
next
  case (Some ps)
  from assms have c: "length ps = unat (width tex) * unat (height tex) \<and>
      unat sizeof_color_t * length ps < 2 ^ 64"
    unfolding wf_texture_def Some option.case .
  have "unat sizeof_color_t = 16" by (simp add: sizeof_color_t_def)
  with c have 2: "16 * length ps < 2 ^ 64" by (elim conjE) (simp only:)
  from c have 1: "length ps = unat (width tex) * unat (height tex)" by (rule conjunct1)
  from Some 1 2 show ?thesis by (rule that)
qed

lemma wf_texture_same_length:
  assumes "wf_texture tex" and "rgb tex = Some ps" and "length ps' = length ps"
  shows "wf_texture (tex\<lparr>rgb := Some ps'\<rparr>)"
proof -
  from assms(1) have "length ps = unat (width tex) * unat (height tex) \<and>
      unat sizeof_color_t * length ps < 2 ^ 64"
    unfolding wf_texture_def assms(2) option.case .
  then have "length ps' = unat (width tex) * unat (height tex) \<and>
      unat sizeof_color_t * length ps' < 2 ^ 64"
    unfolding assms(3) .
  then show ?thesis by (auto simp: wf_texture_def)
qed

section \<open>The initialiser\<close>

lemma texture_fill_spec:
  assumes "length ps = nat n" and "0 \<le> i" and "i \<le> n" and "n \<le> INT_MAX"
  shows "texture_fill n c i (Some ps) = Inr (Some (take (nat i) ps @ replicate (nat (n - i)) c))"
  using assms
proof (induction "nat (n - i)" arbitrary: i ps)
  case 0
  then have "i = n" by simp
  with 0 show ?case by (simp add: texture_fill.simps [of n c n])
next
  case (Suc d)
  then have lt: "i < n" by linarith
  with Suc.prems have idx: "unat (int_to_size i) = nat i"
    by (intro unat_int_to_size) (auto simp: INT_MAX_def)
  from lt Suc.prems have inb: "nat i < length ps" by simp
  have st: "store (Some ps) (int_to_size i) c = Inr (Some (ps[nat i := c]))"
    using idx inb by (simp add: store_def)
  have nx: "s_int (i + 1) = Inr (i + 1)"
    using lt Suc.prems by (simp add: s_int_def INT_MAX_def INT_MIN_def)
  have "texture_fill n c (i + 1) (Some (ps[nat i := c]))
        = Inr (Some (take (nat (i + 1)) (ps[nat i := c]) @ replicate (nat (n - (i + 1))) c))"
    using Suc.hyps(2) Suc.prems lt by (intro Suc.hyps(1)) auto
  moreover have "take (nat (i + 1)) (ps[nat i := c]) = take (nat i) ps @ [c]"
  proof -
    have "nat (i + 1) = Suc (nat i)" using Suc.prems by simp
    then show ?thesis using inb by (simp add: take_Suc_conv_app_nth)
  qed
  moreover have "replicate (nat (n - i)) c = c # replicate (nat (n - (i + 1))) c"
  proof -
    have "nat (n - i) = Suc (nat (n - (i + 1)))" using lt by simp
    then show ?thesis by simp
  qed
  ultimately show ?case
    using lt st nx by (simp add: texture_fill.simps [of n c i])
qed

lemma malloc_granted:
  assumes "m (int_to_size n * sizeof_color_t) = Some junk" and "0 \<le> n" and "n \<le> INT_MAX"
  shows "malloc m (int_to_size n * sizeof_color_t) = Some (replicate (nat n) junk)"
proof -
  have "unat (int_to_size n) = nat n"
    using assms by (intro unat_int_to_size) (auto simp: INT_MAX_def)
  moreover have "nat n * 16 < 2 ^ 64" using assms by (simp add: INT_MAX_def)
  ultimately have "unat (int_to_size n * sizeof_color_t) = nat n * 16"
    by (simp add: sizeof_color_t_def unat_word_ariths)
  with assms(1) show ?thesis by (simp add: malloc_def)
qed

text \<open>
  C2, as the code has it. For \<open>w > 0\<close> and \<open>h > 0\<close> whose product fits an \<open>int\<close>, and when
  the allocator grants the request, \<open>texture\<close> returns a buffer whose width is \<open>w\<close>, whose
  height is \<open>h\<close> and whose store holds exactly \<open>w * h\<close> pixels, each equal to the fill
  colour. The buffer is well formed.
\<close>

theorem texture_filled:
  assumes "0 < w" and "0 < h" and "w * h \<le> INT_MAX"
    and "m (int_to_size (w * h) * sizeof_color_t) \<noteq> None"
  shows "\<exists>tex. texture m w h c = Inr tex \<and> uint (width tex) = w \<and> uint (height tex) = h \<and>
           rgb tex = Some (replicate (nat (w * h)) c) \<and> wf_texture tex"
proof -
  from assms obtain junk where junk: "m (int_to_size (w * h) * sizeof_color_t) = Some junk"
    by auto
  have pos: "0 < w * h" using assms by simp
  have wle: "w \<le> w * h" using assms by (simp add: mult_le_cancel_left1)
  have hle: "h \<le> w * h" using assms by (simp add: mult_le_cancel_right1)
  have ok: "s_int (w * h) = Inr (w * h)"
    using pos assms(3) by (simp add: s_int_def INT_MIN_def)
  have blk: "malloc m (int_to_size (w * h) * sizeof_color_t) = Some (replicate (nat (w * h)) junk)"
    using junk pos assms(3) by (intro malloc_granted) auto
  have fill: "texture_fill (w * h) c 0 (Some (replicate (nat (w * h)) junk))
              = Inr (Some (replicate (nat (w * h)) c))"
    using texture_fill_spec [of "replicate (nat (w * h)) junk" "w * h" 0 c] pos assms(3)
    by simp
  have "w < 2 ^ 64" "h < 2 ^ 64"
    using wle hle assms(3) by (simp_all add: INT_MAX_def)
  with assms(1,2) have uw: "uint (int_to_size w) = w" and uh: "uint (int_to_size h) = h"
    by (simp_all add: int_to_size_def uint_word_of_int)
  have "nat (w * h) = unat (int_to_size w) * unat (int_to_size h)"
    using uw uh assms by (simp add: unat_eq_nat_uint nat_mult_distrib)
  moreover have "16 * nat (w * h) < 2 ^ 64" using assms(3) pos by (simp add: INT_MAX_def)
  ultimately show ?thesis
    using ok blk fill uw uh
    by (simp add: texture_def wf_texture_def sizeof_color_t_def)
qed

theorem texture_filled_witness:
  "(0 :: int) < 4 \<and> (0 :: int) < 4 \<and> (4 :: int) * 4 \<le> INT_MAX \<and>
   (\<lambda>n. Some black) (int_to_size (4 * 4) * sizeof_color_t) \<noteq> None \<and>
   (\<exists>tex. texture (\<lambda>n. Some black) 4 4 red = Inr tex \<and> uint (width tex) = 4 \<and>
      uint (height tex) = 4 \<and> rgb tex = Some (replicate (nat (4 * 4)) red) \<and> wf_texture tex)"
  using texture_filled [of 4 4 "\<lambda>n. Some black" red]
  by (simp add: INT_MAX_def)

text \<open>
  C2 as stated fails for dimensions whose product does not fit an \<open>int\<close>: for a 65536 by
  65536 buffer the product \<open>w * h\<close> overflows, and no buffer of \<open>w * h\<close> pixels is returned,
  whatever the allocator does.
\<close>

theorem texture_product_overflows:
  "texture (\<lambda>n. Some black) 65536 65536 white = Inl SignedOverflow"
  by (simp add: texture_def s_int_def INT_MAX_def INT_MIN_def)

lemma texture_fill_no_allocation_error: "texture_fill n c i p \<noteq> Inl AllocationError"
proof (induction n c i p rule: texture_fill.induct)
  case (1 n rgba i p)
  then show ?case
    by (auto simp: texture_fill.simps [of n rgba i p] store_def s_int_def
        split: sum.splits option.splits if_splits)
qed

text \<open>
  C9, as the code has it. \<open>texture\<close> has no error return and never yields an
  \<open>AllocationError\<close>. Its outcome depends on the allocator only through the answer to the
  request of \<open>w * h * sizeof(color_t)\<close> bytes, and that answer is not tested. Whenever the
  request is granted and \<open>w * h\<close> fits an \<open>int\<close>, \<open>texture\<close> returns a buffer. When the request
  is refused and \<open>0 < w * h\<close>, the fill loop stores through the null pointer; when it is
  refused and \<open>w * h \<le> 0\<close>, the buffer returned has the null pointer as its store. When
  \<open>w * h\<close> does not fit an \<open>int\<close>, the product overflows before the allocator is asked.
\<close>

theorem texture_no_allocation_error:
  "texture m w h c \<noteq> Inl AllocationError \<and>
   (m (int_to_size (w * h) * sizeof_color_t) = m' (int_to_size (w * h) * sizeof_color_t)
      \<longrightarrow> texture m w h c = texture m' w h c) \<and>
   (INT_MIN \<le> w * h \<and> w * h \<le> INT_MAX \<and> m (int_to_size (w * h) * sizeof_color_t) \<noteq> None
      \<longrightarrow> (\<exists>tex. texture m w h c = Inr tex)) \<and>
   (0 < w * h \<and> w * h \<le> INT_MAX \<and> m (int_to_size (w * h) * sizeof_color_t) = None
      \<longrightarrow> texture m w h c = Inl NullPointer) \<and>
   (INT_MIN \<le> w * h \<and> w * h \<le> 0 \<and> m (int_to_size (w * h) * sizeof_color_t) = None
      \<longrightarrow> texture m w h c =
            Inr \<lparr>width = int_to_size w, height = int_to_size h, rgb = None\<rparr>) \<and>
   (w * h < INT_MIN \<or> INT_MAX < w * h \<longrightarrow> texture m w h c = Inl SignedOverflow)"
proof (intro conjI impI)
  show "texture m w h c \<noteq> Inl AllocationError"
    using texture_fill_no_allocation_error
    by (auto simp: texture_def s_int_def split: sum.splits if_splits)
next
  assume "m (int_to_size (w * h) * sizeof_color_t) = m' (int_to_size (w * h) * sizeof_color_t)"
  then show "texture m w h c = texture m' w h c"
    by (simp add: texture_def malloc_def s_int_def)
next
  assume asm: "INT_MIN \<le> w * h \<and> w * h \<le> INT_MAX \<and>
    m (int_to_size (w * h) * sizeof_color_t) \<noteq> None"
  then have ok: "s_int (w * h) = Inr (w * h)" by (simp add: s_int_def)
  show "\<exists>tex. texture m w h c = Inr tex"
  proof (cases "0 < w * h")
    case True
    from asm obtain junk where "m (int_to_size (w * h) * sizeof_color_t) = Some junk"
      by auto
    with True asm
    have "malloc m (int_to_size (w * h) * sizeof_color_t) = Some (replicate (nat (w * h)) junk)"
      by (intro malloc_granted) auto
    moreover have "texture_fill (w * h) c 0 (Some (replicate (nat (w * h)) junk))
                   = Inr (Some (replicate (nat (w * h)) c))"
      using texture_fill_spec [of "replicate (nat (w * h)) junk" "w * h" 0 c] True asm
      by simp
    ultimately show ?thesis using ok by (simp add: texture_def)
  next
    case False
    then show ?thesis using ok
      by (simp add: texture_def texture_fill.simps [of "w * h" c 0])
  qed
next
  assume asm: "0 < w * h \<and> w * h \<le> INT_MAX \<and> m (int_to_size (w * h) * sizeof_color_t) = None"
  then have ok: "s_int (w * h) = Inr (w * h)" by (simp add: s_int_def INT_MIN_def)
  from asm have "malloc m (int_to_size (w * h) * sizeof_color_t) = None"
    by (simp add: malloc_def)
  moreover have "texture_fill (w * h) c 0 None = Inl NullPointer"
    using asm by (simp add: texture_fill.simps [of "w * h" c 0] store_def)
  ultimately show "texture m w h c = Inl NullPointer"
    using ok by (simp add: texture_def)
next
  assume asm: "INT_MIN \<le> w * h \<and> w * h \<le> 0 \<and> m (int_to_size (w * h) * sizeof_color_t) = None"
  then have ok: "s_int (w * h) = Inr (w * h)" by (simp add: s_int_def INT_MAX_def)
  from asm have "malloc m (int_to_size (w * h) * sizeof_color_t) = None"
    by (simp add: malloc_def)
  moreover have "texture_fill (w * h) c 0 None = Inr None"
    using asm by (simp add: texture_fill.simps [of "w * h" c 0])
  ultimately show "texture m w h c =
      Inr \<lparr>width = int_to_size w, height = int_to_size h, rgb = None\<rparr>"
    using ok by (simp add: texture_def)
next
  assume "w * h < INT_MIN \<or> INT_MAX < w * h"
  then have "s_int (w * h) = Inl SignedOverflow" by (auto simp: s_int_def)
  then show "texture m w h c = Inl SignedOverflow" by (simp add: texture_def)
qed

theorem texture_no_allocation_error_witness:
  "texture (\<lambda>n. Some black) 2 2 white \<noteq> Inl AllocationError \<and>
   INT_MIN \<le> 2 * 2 \<and> (2 :: int) * 2 \<le> INT_MAX \<and>
   (\<lambda>n. Some black) (int_to_size (2 * 2) * sizeof_color_t) \<noteq> None \<and>
   (\<exists>tex. texture (\<lambda>n. Some black) 2 2 white = Inr tex) \<and>
   (\<lambda>n. if n = 64 then Some black else None) (int_to_size (2 * 2) * sizeof_color_t) =
     (\<lambda>n. Some black) (int_to_size (2 * 2) * sizeof_color_t) \<and>
   texture (\<lambda>n. if n = 64 then Some black else None) 2 2 white =
     texture (\<lambda>n. Some black) 2 2 white \<and>
   (0 :: int) < 3 * 2 \<and> (3 :: int) * 2 \<le> INT_MAX \<and>
   (\<lambda>n. None :: color_t option) (int_to_size (3 * 2) * sizeof_color_t) = None \<and>
   texture (\<lambda>n. None) 3 2 white = Inl NullPointer \<and>
   INT_MIN \<le> 0 * 2 \<and> (0 :: int) * 2 \<le> 0 \<and>
   texture (\<lambda>n. None) 0 2 white = Inr \<lparr>width = 0, height = 2, rgb = None\<rparr> \<and>
   INT_MAX < 65536 * 32768 \<and>
   texture (\<lambda>n. None) 65536 32768 white = Inl SignedOverflow"
  using texture_no_allocation_error [of "\<lambda>n. Some black" 2 2 white "\<lambda>n. Some black"]
    texture_no_allocation_error [of "\<lambda>n. if n = 64 then Some black else None" 2 2 white
      "\<lambda>n. Some black"]
    texture_no_allocation_error [of "\<lambda>n. None" 3 2 white "\<lambda>n. None"]
    texture_no_allocation_error [of "\<lambda>n. None" 0 2 white "\<lambda>n. None"]
    texture_no_allocation_error [of "\<lambda>n. None" 65536 32768 white "\<lambda>n. None"]
  by (simp add: INT_MAX_def INT_MIN_def int_to_size_def sizeof_color_t_def)

text \<open>
  C9 as stated fails: when the allocator has no memory for a 1 by 1 buffer, the fill loop
  stores through the null pointer, and no \<open>AllocationError\<close> reaches the caller.
\<close>

theorem texture_allocation_failure_unreported:
  "texture (\<lambda>n. None) 1 1 white = Inl NullPointer"
  by (simp add: texture_def s_int_def INT_MAX_def INT_MIN_def malloc_def texture_fill.simps
      store_def)

section \<open>Noise\<close>

lemma clamp_in_unit: "in_unit (fminf (fmaxf v (Finite 0)) (Finite 1))"
  by (cases v) (auto simp: in_unit_def fminf_def fmaxf_def)

lemma noise_pixel_clamped:
  "noise_pixel L k px st = (px', st') \<Longrightarrow> clamped px' \<and> a px' = a px"
  by (auto simp: noise_pixel_def clamped_def clamp_in_unit split: prod.splits)

lemma noise_loop_spec:
  assumes "unat n = length ps"
  shows "\<exists>ps' st'. noise_loop L k n i (Some ps) st = Inr (Some ps', st') \<and>
           length ps' = length ps \<and>
           (\<forall>q < length ps. if unat i \<le> q then clamped (ps' ! q) \<and> a (ps' ! q) = a (ps ! q)
                            else ps' ! q = ps ! q)"
  using assms
proof (induction "unat n - unat i" arbitrary: i ps st)
  case 0
  then have "\<not> i < n" by (simp add: word_less_nat_alt)
  with 0 show ?case by (simp add: noise_loop.simps [of L k n i])
next
  case (Suc d)
  then have lt: "i < n" by (simp add: word_less_nat_alt)
  then have inb: "unat i < length ps" using Suc.prems by (simp add: word_less_nat_alt)
  obtain px' st1 where np: "noise_pixel L k (ps ! unat i) st = (px', st1)"
    by (cases "noise_pixel L k (ps ! unat i) st")
  then have cl: "clamped px'" "a px' = a (ps ! unat i)"
    by (auto dest: noise_pixel_clamped)
  have si: "unat (i + 1) = Suc (unat i)" using lt by (rule unat_succ_less)
  with Suc.hyps(2) have d: "d = unat n - unat (i + 1)" by simp
  from Suc.hyps(1) [OF d, of "ps[unat i := px']" st1] Suc.prems
  obtain ps' st' where ps':
      "noise_loop L k n (i + 1) (Some (ps[unat i := px'])) st1 = Inr (Some ps', st')"
      "length ps' = length ps"
      "\<forall>q < length ps. if unat (i + 1) \<le> q
           then clamped (ps' ! q) \<and> a (ps' ! q) = a (ps[unat i := px'] ! q)
           else ps' ! q = ps[unat i := px'] ! q"
    by auto
  have "\<forall>q < length ps. if unat i \<le> q then clamped (ps' ! q) \<and> a (ps' ! q) = a (ps ! q)
                          else ps' ! q = ps ! q"
  proof (intro allI impI)
    fix q assume q: "q < length ps"
    show "if unat i \<le> q then clamped (ps' ! q) \<and> a (ps' ! q) = a (ps ! q)
          else ps' ! q = ps ! q"
    proof (cases "q = unat i")
      case True
      with ps'(3) q si cl show ?thesis by simp
    next
      case False
      with ps'(3) q si show ?thesis by (cases "unat i \<le> q") auto
    qed
  qed
  with ps'(1,2) lt inb np show ?case
    by (simp add: noise_loop.simps [of L k n i] load_def store_def)
qed

text \<open>
  C8. For a well-formed buffer, every intensity (infinities and NaN included), every state
  of the generator and every C library, \<open>_noise\<close> returns without a fault, keeps the
  dimensions, leaves the r, g and b channels of every pixel in \<open>[0, 1]\<close> and leaves every
  alpha channel as it was.
\<close>

theorem noise_clamps:
  assumes "wf_texture tex"
  shows "\<exists>tex' st'. noise L st0 tex intensity = Inr (tex', st') \<and>
           width tex' = width tex \<and> height tex' = height tex \<and> wf_texture tex' \<and>
           (\<forall>q < length (pixels tex).
              in_unit (r (pixels tex' ! q)) \<and> in_unit (g (pixels tex' ! q)) \<and>
              in_unit (b (pixels tex' ! q)) \<and> a (pixels tex' ! q) = a (pixels tex ! q))"
proof -
  from assms obtain ps where ps: "rgb tex = Some ps"
      "length ps = unat (width tex) * unat (height tex)" "length ps < 2 ^ 64"
    by (auto simp: wf_texture_def sizeof_color_t_def split: option.splits)
  then have "unat (width tex * height tex) = length ps"
    by (simp add: unat_word_ariths)
  from noise_loop_spec [OF this, of L intensity 0 "srand L 1"]
  obtain ps' st' where ps':
      "noise_loop L intensity (width tex * height tex) 0 (Some ps) (srand L 1) = Inr (Some ps', st')"
      "length ps' = length ps"
      "\<forall>q < length ps. clamped (ps' ! q) \<and> a (ps' ! q) = a (ps ! q)"
    by auto
  have "noise L st0 tex intensity = Inr (tex\<lparr>rgb := Some ps'\<rparr>, st')"
    using ps(1) ps'(1) by (simp add: noise_def)
  moreover have "wf_texture (tex\<lparr>rgb := Some ps'\<rparr>)"
    using assms ps ps'(2) by (simp add: wf_texture_def)
  ultimately show ?thesis
    using ps(1) ps'(3) by (auto simp: pixels_def clamped_def)
qed

theorem noise_clamps_witness:
  "wf_texture (solid 2 2 red) \<and>
   (\<exists>tex' st'. noise example_libc 7 (solid 2 2 red) (Finite 1000) = Inr (tex', st') \<and>
      width tex' = width (solid 2 2 red) \<and> height tex' = height (solid 2 2 red) \<and>
      wf_texture tex' \<and>
      list_all (\<lambda>px. in_unit (r px) \<and> in_unit (g px) \<and> in_unit (b px) \<and> a px = Finite 1)
        (pixels tex'))"
proof -
  have wf: "wf_texture (solid 2 2 red)"
    by (simp add: wf_texture_def solid_def sizeof_color_t_def)
  from noise_clamps [OF wf, of example_libc 7 "Finite 1000"]
  obtain tex' st' where t: "noise example_libc 7 (solid 2 2 red) (Finite 1000) = Inr (tex', st')"
      "width tex' = width (solid 2 2 red)" "height tex' = height (solid 2 2 red)"
      "wf_texture tex'"
      "\<forall>q < length (pixels (solid 2 2 red)).
          in_unit (r (pixels tex' ! q)) \<and> in_unit (g (pixels tex' ! q)) \<and>
          in_unit (b (pixels tex' ! q)) \<and> a (pixels tex' ! q) = a (pixels (solid 2 2 red) ! q)"
    by blast
  from t(2,3,4) have len: "length (pixels tex') = 4"
    by (auto simp: wf_texture_def pixels_def solid_def split: option.splits)
  have "list_all (\<lambda>px. in_unit (r px) \<and> in_unit (g px) \<and> in_unit (b px) \<and> a px = Finite 1)
          (pixels tex')"
    unfolding list_all_length
  proof (intro allI impI)
    fix q assume "q < length (pixels tex')"
    with len have q: "q < 4" by simp
    with t(5) show "in_unit (r (pixels tex' ! q)) \<and> in_unit (g (pixels tex' ! q)) \<and>
        in_unit (b (pixels tex' ! q)) \<and> a (pixels tex' ! q) = Finite 1"
      by (auto simp: pixels_def solid_def red_def)
  qed
  with wf t show ?thesis by blast
qed

text \<open>
  C1. On two buffers with the same dimensions and the same pixels, with the same intensity,
  \<open>_noise\<close> yields the same result, texture and final generator state, whatever states
  \<open>st1\<close> and \<open>st2\<close> the generator was in before the two calls: the sequence drawn is
  the one that follows \<^verbatim>\<open>srand(1)\<close>.
\<close>

theorem noise_deterministic:
  assumes "width tex1 = width tex2" and "height tex1 = height tex2" and "rgb tex1 = rgb tex2"
  shows "noise L st1 tex1 intensity = noise L st2 tex2 intensity"
proof -
  from assms have "tex1 = tex2" by simp
  then show ?thesis by (simp add: noise_def)
qed

theorem noise_deterministic_witness:
  "width (solid 2 2 red) = width (solid 2 2 red) \<and> height (solid 2 2 red) = height (solid 2 2 red) \<and>
   rgb (solid 2 2 red) = rgb (solid 2 2 red) \<and>
   noise example_libc 7 (solid 2 2 red) (Finite (1 / 2))
     = noise example_libc 12345 (solid 2 2 red) (Finite (1 / 2))"
  using noise_deterministic [of "solid 2 2 red" "solid 2 2 red" example_libc 7 "Finite (1 / 2)" 12345]
  by simp

section \<open>The rectangle\<close>

lemma rect_rows_skip: "\<not> x < xe \<Longrightarrow> rect_rows W x xe ye color i p = Inr p"
proof (induction W x xe ye color i p rule: rect_rows.induct)
  case (1 W x xe ye color i p)
  then show ?case
    by (simp add: rect_rows.simps [of W x xe ye color i p]
        rect_cols.simps [of W i xe color x p])
qed

text \<open>
  When the sum \<open>x + rw\<close> exceeds the width and the test of the code still passes, the
  \<open>unsigned int\<close> sum has wrapped, and it is then below \<open>x\<close>.
\<close>

lemma uint_sum_wraps:
  assumes "unat (W :: size_t) < unat (x :: uint) + unat rw"
    and "\<not> W < uint_to_size (x + rw)"
  shows "\<not> x < x + rw"
proof -
  from assms(2) have "unat (x + rw) \<le> unat W"
    by (simp add: word_less_nat_alt unat_uint_to_size)
  with assms(1) have ne: "unat (x + rw) \<noteq> unat x + unat rw" by linarith
  have 1: "unat rw < 2 ^ 32" using unsigned_less [of rw] by simp
  have 2: "unat x < 2 ^ 32" using unsigned_less [of x] by simp
  have 3: "unat (x + rw) = (unat x + unat rw) mod 2 ^ 32"
    by (simp add: unat_word_ariths)
  have 4: "\<not> unat x + unat rw < 2 ^ 32" using ne 3 by auto
  have "(unat x + unat rw) mod 2 ^ 32 = unat x + unat rw - 2 ^ 32"
    using 1 2 4 by (simp add: mod_if)
  with 1 2 3 4 have "unat (x + rw) < unat x" by linarith
  then show ?thesis by (simp add: word_less_nat_alt)
qed

text \<open>
  C3. When \<open>x + rw\<close> exceeds the width of the buffer or \<open>y + rh\<close> exceeds its height (the
  sums taken as numbers), \<open>_rect\<close> returns without a fault and the texture, its store
  included, is the one it was given: no pixel is written. This holds for every texture,
  also where the \<open>unsigned int\<close> sums of the code wrap around.
\<close>

theorem rect_outside_unchanged:
  assumes "unat (width tex) < unat x + unat rw \<or> unat (height tex) < unat y + unat rh"
  shows "rect tex x y rw rh color = Inr tex"
proof (cases "width tex < uint_to_size (x + rw) \<or> height tex < uint_to_size (y + rh)")
  case True
  then show ?thesis by (simp add: rect_def)
next
  case False
  from assms have "rect_rows (width tex) x (x + rw) (y + rh) color y (rgb tex) = Inr (rgb tex)"
  proof
    assume "unat (width tex) < unat x + unat rw"
    with False have "\<not> x < x + rw" by (simp add: uint_sum_wraps)
    then show ?thesis by (rule rect_rows_skip)
  next
    assume "unat (height tex) < unat y + unat rh"
    with False have "\<not> y < y + rh" by (simp add: uint_sum_wraps)
    then show ?thesis by (simp add: rect_rows.simps [of _ _ _ _ _ y])
  qed
  with False show ?thesis by (simp add: rect_def)
qed

theorem rect_outside_unchanged_witness:
  "unat (width (solid 4 4 red)) < unat (3 :: uint) + unat (2 :: uint) \<and>
   rect (solid 4 4 red) 3 1 2 2 green = Inr (solid 4 4 red)"
  using rect_outside_unchanged [of "solid 4 4 red" 3 2 1 2 green]
  by (simp add: solid_def)

lemma rect_cols_spec:
  assumes "unat i * unat W + unat xe \<le> length ps" and "length ps < 2 ^ 64"
  shows "\<exists>ps'. rect_cols W i xe c j (Some ps) = Inr (Some ps') \<and> length ps' = length ps \<and>
           (\<forall>k < length ps. ps' ! k =
              (if unat i * unat W + unat j \<le> k \<and> k < unat i * unat W + unat xe then c else ps ! k))"
  using assms
proof (induction "unat xe - unat j" arbitrary: j ps)
  case 0
  then have "\<not> j < xe" by (simp add: word_less_nat_alt)
  with 0 show ?case by (auto simp: rect_cols.simps [of W i xe c j])
next
  case (Suc d)
  then have lt: "j < xe" by (simp add: word_less_nat_alt)
  then have ult: "unat j < unat xe" by (simp add: word_less_nat_alt)
  let ?k = "unat i * unat W + unat j"
  have inb: "?k < length ps" using ult Suc.prems by linarith
  then have "unat (uint_to_size i) * unat W + unat (uint_to_size j) < 2 ^ 64"
    using Suc.prems by (simp add: unat_uint_to_size)
  then have idx: "unat (uint_to_size i * W + uint_to_size j) = ?k"
    by (simp add: unat_mult_add unat_uint_to_size)
  have st: "store (Some ps) (uint_to_size i * W + uint_to_size j) c = Inr (Some (ps[?k := c]))"
    using idx inb by (simp add: store_def)
  have sj: "unat (j + 1) = Suc (unat j)" using lt by (rule unat_succ_less)
  with Suc.hyps(2) have d: "d = unat xe - unat (j + 1)" by simp
  from Suc.hyps(1) [OF d, of "ps[?k := c]"] Suc.prems
  obtain ps' where ps': "rect_cols W i xe c (j + 1) (Some (ps[?k := c])) = Inr (Some ps')"
      "length ps' = length ps"
      "\<forall>k < length ps. ps' ! k =
         (if unat i * unat W + unat (j + 1) \<le> k \<and> k < unat i * unat W + unat xe then c
          else ps[?k := c] ! k)"
    by auto
  have "\<forall>k < length ps. ps' ! k =
         (if ?k \<le> k \<and> k < unat i * unat W + unat xe then c else ps ! k)"
  proof (intro allI impI)
    fix k assume k: "k < length ps"
    show "ps' ! k = (if ?k \<le> k \<and> k < unat i * unat W + unat xe then c else ps ! k)"
    proof (cases "k = ?k")
      case True
      with ps'(3) k sj ult inb show ?thesis by simp
    next
      case False
      with ps'(3) k sj show ?thesis by auto
    qed
  qed
  with ps'(1,2) lt st show ?case
    by (simp add: rect_cols.simps [of W i xe c j])
qed

lemma rect_rows_spec:
  assumes "unat xe \<le> unat W" and "unat ye * unat W \<le> length ps" and "length ps < 2 ^ 64"
  shows "\<exists>ps'. rect_rows W x xe ye c i (Some ps) = Inr (Some ps') \<and> length ps' = length ps \<and>
           (\<forall>k < length ps. ps' ! k =
              (if \<exists>row. unat i \<le> row \<and> row < unat ye \<and>
                         row * unat W + unat x \<le> k \<and> k < row * unat W + unat xe
               then c else ps ! k))"
  using assms
proof (induction "unat ye - unat i" arbitrary: i ps)
  case 0
  then have ge: "unat ye \<le> unat i" by simp
  then have "\<not> i < ye" by (simp add: word_less_nat_alt)
  then have "rect_rows W x xe ye c i (Some ps) = Inr (Some ps)"
    by (simp add: rect_rows.simps [of W x xe ye c i])
  with ge show ?case by auto
next
  case (Suc d)
  then have lt: "i < ye" by (simp add: word_less_nat_alt)
  then have ult: "unat i < unat ye" by (simp add: word_less_nat_alt)
  have "Suc (unat i) * unat W \<le> unat ye * unat W"
    using ult by (intro mult_le_mono1) simp
  with Suc.prems have fits: "unat i * unat W + unat xe \<le> length ps" by simp
  from rect_cols_spec [OF fits Suc.prems(3), of c x]
  obtain ps1 where ps1: "rect_cols W i xe c x (Some ps) = Inr (Some ps1)"
      "length ps1 = length ps"
      "\<forall>k < length ps. ps1 ! k =
         (if unat i * unat W + unat x \<le> k \<and> k < unat i * unat W + unat xe then c else ps ! k)"
    by auto
  have si: "unat (i + 1) = Suc (unat i)" using lt by (rule unat_succ_less)
  with Suc.hyps(2) have d: "d = unat ye - unat (i + 1)" by simp
  from Suc.hyps(1) [OF d, of ps1] Suc.prems ps1(2)
  obtain ps' where ps': "rect_rows W x xe ye c (i + 1) (Some ps1) = Inr (Some ps')"
      "length ps' = length ps"
      "\<forall>k < length ps. ps' ! k =
         (if \<exists>row. unat (i + 1) \<le> row \<and> row < unat ye \<and>
                    row * unat W + unat x \<le> k \<and> k < row * unat W + unat xe
          then c else ps1 ! k)"
    by auto
  have "\<forall>k < length ps. ps' ! k =
         (if \<exists>row. unat i \<le> row \<and> row < unat ye \<and>
                    row * unat W + unat x \<le> k \<and> k < row * unat W + unat xe
          then c else ps ! k)"
  proof (intro allI impI)
    fix k assume k: "k < length ps"
    let ?in = "\<lambda>row. row * unat W + unat x \<le> k \<and> k < row * unat W + unat xe"
    define A where "A \<longleftrightarrow> (\<exists>row. unat i \<le> row \<and> row < unat ye \<and> ?in row)"
    define B where "B \<longleftrightarrow> (\<exists>row. Suc (unat i) \<le> row \<and> row < unat ye \<and> ?in row)"
    have split: "A \<longleftrightarrow> ?in (unat i) \<or> B"
      unfolding A_def B_def
      using ult by (metis Suc_leI le_neq_implies_less order_refl Suc_leD)
    from ps'(3) k si have 1: "ps' ! k = (if B then c else ps1 ! k)"
      by (simp add: B_def)
    from ps1(3) k have 2: "ps1 ! k = (if ?in (unat i) then c else ps ! k)"
      by simp
    have "ps' ! k = (if A then c else ps ! k)"
      using 1 2 split by auto
    then show "ps' ! k = (if \<exists>row. unat i \<le> row \<and> row < unat ye \<and> ?in row then c else ps ! k)"
      by (simp only: A_def)
  qed
  with ps'(1,2) ps1(1) lt show ?case
    by (simp add: rect_rows.simps [of W x xe ye c i])
qed

text \<open>
  The rectangle in terms of the \<open>unsigned int\<close> sums \<open>x + rw\<close> and \<open>y + rh\<close> that the code
  computes and compares with the width and the height. For a well-formed buffer and sums
  that pass the test, \<open>_rect\<close> returns without a fault, keeps the dimensions, sets every
  pixel from \<open>x\<close> up to the wrapped sum \<open>x + rw\<close> and from \<open>y\<close> up to the wrapped sum \<open>y + rh\<close>
  to the colour, and leaves every other pixel as it was.
\<close>

lemma rect_fills_wrapped:
  assumes wf: "wf_texture tex"
    and xin: "unat (x + rw) \<le> unat (width tex)"
    and yin: "unat (y + rh) \<le> unat (height tex)"
  shows "\<exists>tex'. rect tex x y rw rh color = Inr tex' \<and>
           width tex' = width tex \<and> height tex' = height tex \<and> wf_texture tex' \<and>
           (\<forall>i j. i < unat (height tex) \<longrightarrow> j < unat (width tex) \<longrightarrow>
              pixel tex' j i =
                (if unat x \<le> j \<and> j < unat (x + rw) \<and> unat y \<le> i \<and> i < unat (y + rh)
                 then color else pixel tex j i))"
proof -
  let ?W = "unat (width tex)" and ?H = "unat (height tex)"
  from wf obtain ps where ps: "rgb tex = Some ps" "length ps = ?W * ?H" "length ps < 2 ^ 64"
    by (auto simp: wf_texture_def sizeof_color_t_def split: option.splits)
  have chk: "\<not> (width tex < uint_to_size (x + rw) \<or> height tex < uint_to_size (y + rh))"
    using xin yin by (simp add: word_less_nat_alt unat_uint_to_size)
  have "unat (y + rh) * ?W \<le> length ps"
    using yin ps(2) by (simp add: mult.commute)
  from rect_rows_spec [OF xin this ps(3), of x color y]
  obtain ps' where ps': "rect_rows (width tex) x (x + rw) (y + rh) color y (Some ps) = Inr (Some ps')"
      "length ps' = length ps"
      "\<forall>k < length ps. ps' ! k =
         (if \<exists>row. unat y \<le> row \<and> row < unat (y + rh) \<and>
                    row * ?W + unat x \<le> k \<and> k < row * ?W + unat (x + rw)
          then color else ps ! k)"
    by auto
  have res: "rect tex x y rw rh color = Inr (tex\<lparr>rgb := Some ps'\<rparr>)"
    using chk ps(1) ps'(1) by (simp add: rect_def)
  have wf': "wf_texture (tex\<lparr>rgb := Some ps'\<rparr>)"
    using wf ps ps'(2) by (simp add: wf_texture_def)
  have px: "pixel (tex\<lparr>rgb := Some ps'\<rparr>) j i =
              (if unat x \<le> j \<and> j < unat (x + rw) \<and> unat y \<le> i \<and> i < unat (y + rh)
               then color else pixel tex j i)"
    if i: "i < ?H" and j: "j < ?W" for i j
  proof -
    let ?k = "i * ?W + j"
    have "?k < (i + 1) * ?W" using j by simp
    also have "\<dots> \<le> ?H * ?W" using i by (intro mult_le_mono1) simp
    finally have k: "?k < length ps" using ps(2) by (simp add: mult.commute)
    have iff: "(\<exists>row. unat y \<le> row \<and> row < unat (y + rh) \<and>
                   row * ?W + unat x \<le> ?k \<and> ?k < row * ?W + unat (x + rw)) \<longleftrightarrow>
               (unat x \<le> j \<and> j < unat (x + rw) \<and> unat y \<le> i \<and> i < unat (y + rh))"
    proof
      assume "\<exists>row. unat y \<le> row \<and> row < unat (y + rh) \<and>
                   row * ?W + unat x \<le> ?k \<and> ?k < row * ?W + unat (x + rw)"
      then obtain row where row: "unat y \<le> row" "row < unat (y + rh)"
          "row * ?W + unat x \<le> ?k" "?k < row * ?W + unat (x + rw)"
        by auto
      have "row * ?W < (i + 1) * ?W" using row(3) j by simp
      then have 1: "row \<le> i" by (simp only: mult_less_cancel2) simp
      have "i * ?W < (row + 1) * ?W" using row(4) xin by simp
      then have 2: "i \<le> row" by (simp only: mult_less_cancel2) simp
      from 1 2 have "row = i" by simp
      with row show "unat x \<le> j \<and> j < unat (x + rw) \<and> unat y \<le> i \<and> i < unat (y + rh)"
        by simp
    next
      assume "unat x \<le> j \<and> j < unat (x + rw) \<and> unat y \<le> i \<and> i < unat (y + rh)"
      then show "\<exists>row. unat y \<le> row \<and> row < unat (y + rh) \<and>
                   row * ?W + unat x \<le> ?k \<and> ?k < row * ?W + unat (x + rw)"
        by (intro exI [of _ i]) simp
    qed
    from ps'(3) k have "ps' ! ?k =
        (if \<exists>row. unat y \<le> row \<and> row < unat (y + rh) \<and>
                   row * ?W + unat x \<le> ?k \<and> ?k < row * ?W + unat (x + rw)
         then color else ps ! ?k)"
      by simp
    then show ?thesis
      unfolding iff using ps(1) by (simp add: pixel_def pixels_def)
  qed
  from res wf' px show ?thesis by auto
qed

lemma uint_sum_exact:
  "unat (x :: uint) + unat (rw :: uint) < 2 ^ 32 \<Longrightarrow> unat (x + rw) = unat x + unat rw"
  by (simp add: unat_word_ariths)

text \<open>
  C4, as the code has it. Here \<open>x + rw\<close> and \<open>y + rh\<close> are numbers. For a well-formed buffer
  and a rectangle fully inside bounds (\<open>x + rw\<close> at most the width and \<open>y + rh\<close> at most the
  height) whose sums \<open>x + rw\<close> and \<open>y + rh\<close> are below \<open>2 ^ 32\<close>, as they are in every buffer
  of fewer than \<open>2 ^ 32\<close> columns and rows, \<open>_rect\<close> returns without a fault and keeps the
  dimensions; every pixel at a column \<open>j\<close> with \<open>x \<le> j < x + rw\<close> and a row \<open>i\<close> with
  \<open>y \<le> i < y + rh\<close> equals the colour, and every other pixel is as it was.
\<close>

theorem rect_inside_fills:
  assumes wf: "wf_texture tex"
    and xin: "unat x + unat rw \<le> unat (width tex)"
    and yin: "unat y + unat rh \<le> unat (height tex)"
    and xlt: "unat x + unat rw < 2 ^ 32"
    and ylt: "unat y + unat rh < 2 ^ 32"
  shows "\<exists>tex'. rect tex x y rw rh color = Inr tex' \<and>
           width tex' = width tex \<and> height tex' = height tex \<and> wf_texture tex' \<and>
           (\<forall>i j. i < unat (height tex) \<longrightarrow> j < unat (width tex) \<longrightarrow>
              pixel tex' j i =
                (if unat x \<le> j \<and> j < unat x + unat rw \<and> unat y \<le> i \<and> i < unat y + unat rh
                 then color else pixel tex j i))"
proof -
  have xs: "unat (x + rw) = unat x + unat rw" using xlt by (rule uint_sum_exact)
  have ys: "unat (y + rh) = unat y + unat rh" using ylt by (rule uint_sum_exact)
  have "unat (x + rw) \<le> unat (width tex)" "unat (y + rh) \<le> unat (height tex)"
    using xin yin xs ys by simp_all
  from rect_fills_wrapped [OF wf this, of color] show ?thesis
    by (simp only: xs ys)
qed

theorem rect_inside_fills_witness:
  "wf_texture (solid 4 4 red) \<and>
   unat (1 :: uint) + unat (2 :: uint) \<le> unat (width (solid 4 4 red)) \<and>
   unat (1 :: uint) + unat (2 :: uint) \<le> unat (height (solid 4 4 red)) \<and>
   unat (1 :: uint) + unat (2 :: uint) < 2 ^ 32 \<and>
   (\<exists>tex'. rect (solid 4 4 red) 1 1 2 2 green = Inr tex' \<and>
      pixel tex' 1 1 = green \<and> pixel tex' 2 2 = green \<and> pixel tex' 0 0 = red \<and>
      pixel tex' 3 2 = red)"
proof -
  have wf: "wf_texture (solid 4 4 red)"
    by (simp add: wf_texture_def solid_def sizeof_color_t_def)
  have xin: "unat (1 :: uint) + unat (2 :: uint) \<le> unat (width (solid 4 4 red))"
    by (simp add: solid_def)
  have yin: "unat (1 :: uint) + unat (2 :: uint) \<le> unat (height (solid 4 4 red))"
    by (simp add: solid_def)
  have lt: "unat (1 :: uint) + unat (2 :: uint) < 2 ^ 32" by simp
  from rect_inside_fills [OF wf xin yin lt lt, of green]
  obtain tex' where t: "rect (solid 4 4 red) 1 1 2 2 green = Inr tex'"
    and px: "\<And>i j. i < unat (height (solid 4 4 red)) \<Longrightarrow> j < unat (width (solid 4 4 red)) \<Longrightarrow>
              pixel tex' j i =
                (if unat (1 :: uint) \<le> j \<and> j < unat (1 :: uint) + unat (2 :: uint) \<and>
                    unat (1 :: uint) \<le> i \<and> i < unat (1 :: uint) + unat (2 :: uint)
                 then green else pixel (solid 4 4 red) j i)"
    by blast
  have "pixel tex' 1 1 = green" "pixel tex' 2 2 = green" "pixel tex' 0 0 = red"
    "pixel tex' 3 2 = red"
    using px [of 1 1] px [of 2 2] px [of 0 0] px [of 2 3]
    by (simp_all add: solid_def pixel_def pixels_def)
  with t wf xin yin lt show ?thesis by blast
qed

text \<open>
  C4 as stated fails where the \<open>unsigned int\<close> sum wraps. The buffer of \<open>2 ^ 32 + 1\<close> columns
  and one row is well formed, and the rectangle of 2 columns at \<open>x = 4294967295\<close> is fully
  inside its bounds; the code computes \<open>x + rw = 1\<close>, the column loop is empty, and \<open>_rect\<close>
  returns the buffer as it was: the pixel at column 4294967295 of row 0, which lies in the
  rectangle, keeps its colour.
\<close>

theorem rect_wide_unfilled:
  "wf_texture (solid 4294967297 1 red) \<and>
   unat (4294967295 :: uint) + unat (2 :: uint) \<le> unat (width (solid 4294967297 1 red)) \<and>
   unat (0 :: uint) + unat (1 :: uint) \<le> unat (height (solid 4294967297 1 red)) \<and>
   rect (solid 4294967297 1 red) 4294967295 0 2 1 green = Inr (solid 4294967297 1 red) \<and>
   pixel (solid 4294967297 1 red) 4294967295 0 = red \<and> red \<noteq> green"
proof -
  let ?t = "solid 4294967297 1 red"
  have wf: "wf_texture ?t"
    by (simp add: wf_texture_def solid_def sizeof_color_t_def)
  have "\<not> (4294967295 :: uint) < 4294967295 + 2" by simp
  then have "rect_rows (width ?t) 4294967295 (4294967295 + 2) (0 + 1) green 0 (rgb ?t) = Inr (rgb ?t)"
    by (rule rect_rows_skip)
  moreover have "\<not> (width ?t < uint_to_size (4294967295 + 2) \<or> height ?t < uint_to_size (0 + 1))"
    by (simp add: solid_def uint_to_size_def)
  ultimately have r: "rect ?t 4294967295 0 2 1 green = Inr ?t" by (simp add: rect_def)
  have px: "pixel ?t 4294967295 0 = red"
    by (simp add: pixel_def pixels_def solid_def)
  have ne: "red \<noteq> green"
    by (simp add: red_def green_def)
  have "unat (4294967295 :: uint) + unat (2 :: uint) \<le> unat (width ?t)"
    "unat (0 :: uint) + unat (1 :: uint) \<le> unat (height ?t)"
    by (simp_all add: solid_def)
  with wf r px ne show ?thesis by simp
qed

section \<open>The circle\<close>

text \<open>
  C10. With radius 0, \<open>cx\<close> starts at \<open>-1\<close>, the guard \<open>cx >= cy\<close> of the loop fails at
  once, and \<open>_circle\<close> returns the texture it was given, whatever the centre and the colour.
\<close>

theorem circle_radius_zero: "circle tex x y 0 color = Inr tex"
  by (simp add: circle_def to_int_def circle_loop.simps)

text \<open>
  C6. A circle of radius 2 centred on the corner \<open>(0, 0)\<close> of a 2 by 2 buffer: the code
  writes the pixel \<open>(0, 1)\<close> only. The span of row 0 starts at column \<open>-1\<close>; the test
  \<open>i <= x + cx\<close> of its loop compares \<open>i\<close> as an \<open>unsigned int\<close>, fails at once, and the
  pixels \<open>(0, 0)\<close> and \<open>(1, 0)\<close> of the disk are not written.
\<close>

theorem circle_at_corner_skips_span:
  "circle (solid 2 2 black) 0 0 2 white =
     Inr \<lparr>width = 2, height = 2, rgb = Some [black, black, white, black]\<rparr>"
  by code_simp

lemma err_update:
  assumes "- (2 ^ 31) \<le> e + d - 2 * uint radius" and "e + d - 2 * uint radius < 2 ^ 31"
  shows "to_int (to_uint e + (to_uint d - push_bit 1 radius)) = e + d - 2 * uint radius"
proof -
  have "to_uint e + (to_uint d - push_bit 1 radius) = to_uint (e + d - 2 * uint radius)"
    by (simp add: to_uint_def push_bit_eq_mult)
  with assms show ?thesis
    by (simp add: to_int_to_uint INT_MIN_def INT_MAX_def)
qed

lemma circle_step_inv:
  assumes inv: "circle_inv (uint radius) (cx, cy, dx, dy, err)" and guard: "cy \<le> cx"
    and small: "uint radius < 2 ^ 30"
  shows "\<exists>s'. circle_step radius (cx, cy, dx, dy, err) = Inr s' \<and> circle_inv (uint radius) s'"
proof -
  let ?R = "uint radius"
  from inv have b: "0 \<le> cy" "cy \<le> ?R" "- 1 \<le> cx" "cx < ?R"
    and dx: "dx = 2 * (?R - 1 - cx) + 1" and dy: "dy = 2 * cy + 1"
    and err: "err = cx * cx + cy * cy - ?R * ?R" and eb: "- (2 * ?R) \<le> err" "err \<le> 2 * ?R"
    by (simp_all add: circle_inv_def)
  from inv guard have le0: "err \<le> 0" by (simp add: circle_inv_def)
  let ?cy = "cy + 1" and ?err1 = "err + dy" and ?dy = "dy + 2"
  have r: "s_int ?cy = Inr ?cy" "s_int ?err1 = Inr ?err1" "s_int ?dy = Inr ?dy"
    using b guard small eb le0 dy by (simp_all add: s_int_def INT_MIN_def INT_MAX_def)
  have err1: "?err1 = cx * cx + ?cy * ?cy - ?R * ?R"
    using err dy by (simp add: algebra_simps)
  show ?thesis
  proof (cases "?err1 > 0")
    case False
    have "circle_step radius (cx, cy, dx, dy, err) = Inr (cx, ?cy, dx, ?dy, ?err1)"
      using le0 r False by (simp add: circle_step_def)
    moreover have "circle_inv ?R (cx, ?cy, dx, ?dy, ?err1)"
      using b guard dx dy err1 eb le0 False by (simp add: circle_inv_def)
    ultimately show ?thesis by blast
  next
    case True
    let ?cx = "cx - 1" and ?dx = "dx + 2"
    let ?err2 = "?err1 + ?dx - 2 * ?R"
    have r2: "s_int ?cx = Inr ?cx" "s_int ?dx = Inr ?dx"
      using b guard small dx by (simp_all add: s_int_def INT_MIN_def INT_MAX_def)
    have e2: "?err2 = err + 2 * (cy - cx) + 2" using dx dy by simp
    have "to_int (to_uint ?err1 + (to_uint ?dx - push_bit 1 radius)) = ?err2"
      using e2 eb le0 b guard small True dy by (intro err_update) simp_all
    then have "circle_step radius (cx, cy, dx, dy, err) = Inr (?cx, ?cy, ?dx, ?dy, ?err2)"
      using le0 r r2 True by (simp add: circle_step_def)
    moreover have "?err2 = ?cx * ?cx + ?cy * ?cy - ?R * ?R"
      using err dx dy by (simp add: algebra_simps)
    then have "circle_inv ?R (?cx, ?cy, ?dx, ?dy, ?err2)"
      using b guard dx dy eb le0 e2 True by (simp add: circle_inv_def)
    ultimately show ?thesis by blast
  qed
qed

lemma circle_inv_start:
  assumes "0 < uint radius" and "uint radius < 2 ^ 30"
  shows "circle_inv (uint radius) (to_int (radius - 1), 0, 1, 1, to_int (to_uint 1 - push_bit 1 radius))"
proof -
  let ?R = "uint radius"
  have "radius - 1 = radius - to_uint 1" by (simp add: to_uint_def)
  then have "uint (radius - 1) = ?R - 1"
    using assms uint_minus_to_uint [of radius 1] by simp
  then have cx: "to_int (radius - 1) = ?R - 1"
    using assms by (simp add: to_int_eq)
  have "to_uint 1 - push_bit 1 radius = to_uint (1 - 2 * ?R)"
    by (simp add: to_uint_def push_bit_eq_mult)
  then have err: "to_int (to_uint 1 - push_bit 1 radius) = 1 - 2 * ?R"
    using assms by (simp add: to_int_to_uint INT_MIN_def INT_MAX_def)
  show ?thesis
    unfolding cx err using assms by (simp add: circle_inv_def algebra_simps)
qed

lemma only_changed_refl: "only_changed P ps ps"
  by (simp add: only_changed_def)

lemma only_changed_trans:
  "only_changed P ps ps1 \<Longrightarrow> only_changed P ps1 ps2 \<Longrightarrow> only_changed P ps ps2"
  unfolding only_changed_def by (metis (no_types, lifting))

lemma only_changed_update: "P k \<Longrightarrow> only_changed P ps (ps[k := c])"
proof -
  assume P: "P k"
  have "P q" if "q < length ps" "ps[k := c] ! q \<noteq> ps ! q" for q
  proof (cases "q = k")
    case True
    with P show ?thesis by simp
  next
    case False
    with that show ?thesis by simp
  qed
  then show ?thesis by (simp add: only_changed_def)
qed

lemma circle_plot_spec:
  assumes len: "length ps = unat W * unat H" "length ps < 2 ^ 64"
    and i: "i < 2 ^ 31"
    and P: "0 \<le> i \<Longrightarrow> nat i < unat W \<Longrightarrow> unat yr < unat H \<Longrightarrow> P (unat yr * unat W + nat i)"
  shows "\<exists>ps'. circle_plot W H yr color i (Some ps) = Inr (Some ps') \<and> only_changed P ps ps'"
proof (cases "0 \<le> i \<and> int_to_size i < W \<and> 0 \<le> yr \<and> uint_to_size yr < H")
  case False
  then have "circle_plot W H yr color i (Some ps) = Inr (Some ps)"
    unfolding circle_plot_def by (simp only: if_False)
  then show ?thesis by (auto intro: only_changed_refl)
next
  case True
  then have i0: "0 \<le> i" by simp
  with i have ui: "unat (int_to_size i) = nat i" by (intro unat_int_to_size) auto
  from True ui have col: "nat i < unat W" by (simp add: word_less_nat_alt)
  from True have row: "unat yr < unat H" by (simp add: word_less_nat_alt unat_uint_to_size)
  let ?k = "unat yr * unat W + nat i"
  have kb: "?k < length ps" using row_col_less [OF row col] len(1) by simp
  then have "unat (uint_to_size yr) * unat W + unat (int_to_size i) < 2 ^ 64"
    using len(2) ui by (simp add: unat_uint_to_size)
  then have "unat (uint_to_size yr * W + int_to_size i) = ?k"
    using ui by (simp add: unat_mult_add unat_uint_to_size)
  with kb have "store (Some ps) (uint_to_size yr * W + int_to_size i) color
      = Inr (Some (ps[?k := color]))"
    by (simp add: store_def)
  with True have "circle_plot W H yr color i (Some ps) = Inr (Some (ps[?k := color]))"
    unfolding circle_plot_def by (simp only: if_True simp_thms)
  moreover have "only_changed P ps (ps[?k := color])"
    using P [OF i0 col row] by (rule only_changed_update)
  ultimately show ?thesis by blast
qed

text \<open>
  Whatever the centre and the radius, on a store of \<open>width * height\<close> pixels the loops of
  \<open>_circle\<close> end in a store of the same size or in an \<open>int\<close> overflow: every index they
  store to passed the two bounds tests, so it is inside the store.
\<close>

lemma circle_plot_safe:
  assumes "length ps = unat W * unat H" and "length ps < 2 ^ 64" and "i < 2 ^ 31"
  shows "\<exists>ps'. circle_plot W H yr color i (Some ps) = Inr (Some ps') \<and> length ps' = length ps"
  using circle_plot_spec [OF assms, of yr "\<lambda>k. True" color]
  by (auto simp: only_changed_def)

lemma circle_span_safe:
  assumes "length ps = unat W * unat H" and "length ps < 2 ^ 64" and "i < 2 ^ 31"
    and "- (2 ^ 31) \<le> i"
  shows "circle_span W H e ya yb color i (Some ps) = Inl SignedOverflow \<or>
         (\<exists>ps'. circle_span W H e ya yb color i (Some ps) = Inr (Some ps') \<and>
                length ps' = length ps)"
  using assms
proof (induction "nat (INT_MAX - i)" arbitrary: i ps)
  case 0
  then have i: "i = INT_MAX" by (simp add: INT_MAX_def)
  then have nx: "s_int (i + 1) = Inl SignedOverflow" by (simp add: s_int_def)
  from circle_plot_safe [OF 0(2,3,4)]
  obtain ps1 where ps1: "circle_plot W H ya color i (Some ps) = Inr (Some ps1)"
      "length ps1 = length ps"
    by blast
  with 0 have len1: "length ps1 = unat W * unat H" "length ps1 < 2 ^ 64" by simp_all
  from circle_plot_safe [OF len1 0(4)]
  obtain ps2 where ps2: "circle_plot W H yb color i (Some ps1) = Inr (Some ps2)"
      "length ps2 = length ps1"
    by blast
  show ?case
    using ps1(1) ps2(1) nx by (simp add: circle_span.simps [of W H e ya yb color i])
next
  case (Suc d)
  then have lt: "i < INT_MAX" by simp
  then have nx: "s_int (i + 1) = Inr (i + 1)"
    using Suc.prems(3,4) by (simp add: s_int_def INT_MAX_def INT_MIN_def)
  from circle_plot_safe [OF Suc.prems(1,2,3)]
  obtain ps1 where ps1: "circle_plot W H ya color i (Some ps) = Inr (Some ps1)"
      "length ps1 = length ps"
    by blast
  with Suc.prems have len1: "length ps1 = unat W * unat H" "length ps1 < 2 ^ 64" by simp_all
  from circle_plot_safe [OF len1 Suc.prems(3)]
  obtain ps2 where ps2: "circle_plot W H yb color i (Some ps1) = Inr (Some ps2)"
      "length ps2 = length ps1"
    by blast
  with len1 have len2: "length ps2 = unat W * unat H" "length ps2 < 2 ^ 64" by simp_all
  have d: "d = nat (INT_MAX - (i + 1))" using Suc.hyps(2) by simp
  have "i + 1 < 2 ^ 31" using lt by (simp add: INT_MAX_def)
  moreover have "- (2 ^ 31) \<le> i + 1" using Suc.prems(4) by simp
  ultimately show ?case
    using Suc.hyps(1) [OF d len2] ps1 ps2 nx
    by (auto simp: circle_span.simps [of W H e ya yb color i])
qed

lemma circle_loop_safe:
  assumes "length ps = unat W * unat H" and "length ps < 2 ^ 64"
  shows "circle_loop W H x y radius color (cx, cy, dx, dy, err) (Some ps) = Inl SignedOverflow \<or>
         (\<exists>ps'. circle_loop W H x y radius color (cx, cy, dx, dy, err) (Some ps) = Inr (Some ps') \<and>
                length ps' = length ps)"
  using assms
proof (induction "nat (cx - cy + 1)" arbitrary: cx cy dx dy err ps rule: less_induct)
  case less
  show ?case
  proof (cases "cy \<le> cx")
    case False
    then show ?thesis by (simp add: circle_loop.simps)
  next
    case True
    let ?sp1 = "circle_span W H (x + to_uint cx) (y + to_uint cy) (y - to_uint cy) color
                  (to_int (x - to_uint cx)) (Some ps)"
    from circle_span_safe [OF less.prems to_int_range to_int_lower]
    have "?sp1 = Inl SignedOverflow \<or> (\<exists>ps1. ?sp1 = Inr (Some ps1) \<and> length ps1 = length ps)" .
    then show ?thesis
    proof
      assume "?sp1 = Inl SignedOverflow"
      with True show ?thesis by (simp add: circle_loop.simps)
    next
      assume "\<exists>ps1. ?sp1 = Inr (Some ps1) \<and> length ps1 = length ps"
      then obtain ps1 where ps1: "?sp1 = Inr (Some ps1)" "length ps1 = length ps" by blast
      with less.prems have len1: "length ps1 = unat W * unat H" "length ps1 < 2 ^ 64"
        by simp_all
      let ?sp2 = "circle_span W H (x + to_uint cy) (y + to_uint cx) (y - to_uint cx) color
                    (to_int (x - to_uint cy)) (Some ps1)"
      from circle_span_safe [OF len1 to_int_range to_int_lower]
      have "?sp2 = Inl SignedOverflow \<or> (\<exists>ps2. ?sp2 = Inr (Some ps2) \<and> length ps2 = length ps1)" .
      then show ?thesis
      proof
        assume "?sp2 = Inl SignedOverflow"
        with True ps1(1) show ?thesis by (simp add: circle_loop.simps)
      next
        assume "\<exists>ps2. ?sp2 = Inr (Some ps2) \<and> length ps2 = length ps1"
        then obtain ps2 where ps2: "?sp2 = Inr (Some ps2)" "length ps2 = length ps1" by blast
        with len1 have len2: "length ps2 = unat W * unat H" "length ps2 < 2 ^ 64"
          by simp_all
        show ?thesis
        proof (cases "circle_step radius (cx, cy, dx, dy, err)")
          case (Inl f)
          then have "f = SignedOverflow"
            by (auto simp: circle_step_def s_int_def split: if_splits sum.splits)
          with Inl True ps1(1) ps2(1) show ?thesis by (simp add: circle_loop.simps)
        next
          case (Inr s')
          obtain cx' cy' dx' dy' err' where eq: "s' = (cx', cy', dx', dy', err')"
            by (cases s') auto
          with Inr have "cx' - cy' < cx - cy" by (auto dest: circle_step_decreases)
          with True have "nat (cx' - cy' + 1) < nat (cx - cy + 1)" by simp
          from less.hyps [OF this len2, of dx' dy' err'] eq
          have "circle_loop W H x y radius color s' (Some ps2) = Inl SignedOverflow \<or>
                (\<exists>ps'. circle_loop W H x y radius color s' (Some ps2) = Inr (Some ps') \<and>
                       length ps' = length ps2)"
            by simp
          with True ps1 ps2 Inr show ?thesis by (auto simp: circle_loop.simps)
        qed
      qed
    qed
  qed
qed

lemma circle_safe:
  assumes "wf_texture tex"
  shows "circle tex x y radius color \<noteq> Inl OutOfBounds \<and>
         circle tex x y radius color \<noteq> Inl NullPointer"
proof -
  from assms obtain ps where ps: "rgb tex = Some ps"
      "length ps = unat (width tex) * unat (height tex)" "16 * length ps < 2 ^ 64"
    by (rule wf_textureE)
  have "length ps < 2 ^ 64" using ps(3) by linarith
  from circle_loop_safe [OF ps(2) this, of x y radius color "to_int (radius - 1)" 0 1 1
      "to_int (to_uint 1 - push_bit 1 radius)"]
  show ?thesis using ps(1) by (auto simp: circle_def)
qed

lemma circle_span_run:
  assumes len: "length ps = unat W * unat H" "length ps < 2 ^ 64"
    and e: "uint e < 2 ^ 31 - 1"
    and i: "0 \<le> i" "i \<le> uint e + 1"
    and Pa: "\<And>col. i \<le> col \<Longrightarrow> col \<le> uint e \<Longrightarrow> nat col < unat W \<Longrightarrow> unat ya < unat H \<Longrightarrow>
               P (unat ya * unat W + nat col)"
    and Pb: "\<And>col. i \<le> col \<Longrightarrow> col \<le> uint e \<Longrightarrow> nat col < unat W \<Longrightarrow> unat yb < unat H \<Longrightarrow>
               P (unat yb * unat W + nat col)"
  shows "\<exists>ps'. circle_span W H e ya yb color i (Some ps) = Inr (Some ps') \<and> only_changed P ps ps'"
  using len i Pa Pb
proof (induction "nat (uint e + 1 - i)" arbitrary: i ps)
  case 0
  then have "i = uint e + 1" by simp
  with 0 e have "\<not> to_uint i \<le> e" by (simp add: to_uint_le_iff)
  then have "circle_span W H e ya yb color i (Some ps) = Inr (Some ps)"
    by (simp add: circle_span.simps [of W H e ya yb color i])
  then show ?case by (auto intro: only_changed_refl)
next
  case (Suc d)
  then have le: "i \<le> uint e" by linarith
  with Suc.prems e have guard: "to_uint i \<le> e" by (simp add: to_uint_le_iff)
  have i31: "i < 2 ^ 31" using le e by simp
  from circle_plot_spec [OF Suc.prems(1,2) i31, of ya P color]
  obtain ps1 where ps1: "circle_plot W H ya color i (Some ps) = Inr (Some ps1)"
      "only_changed P ps ps1"
    using Suc.prems(5) [of i] le by auto
  then have len1: "length ps1 = unat W * unat H" "length ps1 < 2 ^ 64"
    using Suc.prems(1,2) by (simp_all add: only_changed_def)
  from circle_plot_spec [OF len1 i31, of yb P color]
  obtain ps2 where ps2: "circle_plot W H yb color i (Some ps1) = Inr (Some ps2)"
      "only_changed P ps1 ps2"
    using Suc.prems(6) [of i] le by auto
  then have len2: "length ps2 = unat W * unat H" "length ps2 < 2 ^ 64"
    using len1 by (simp_all add: only_changed_def)
  have nx: "s_int (i + 1) = Inr (i + 1)"
    using Suc.prems(3) le e by (simp add: s_int_def INT_MIN_def INT_MAX_def)
  have d: "d = nat (uint e + 1 - (i + 1))" using Suc.hyps(2) by simp
  have "\<exists>ps'. circle_span W H e ya yb color (i + 1) (Some ps2) = Inr (Some ps') \<and>
          only_changed P ps2 ps'"
  proof (rule Suc.hyps(1) [OF d len2])
    show "0 \<le> i + 1" using Suc.prems(3) by simp
    show "i + 1 \<le> uint e + 1" using le by simp
    show "P (unat ya * unat W + nat col)"
      if "i + 1 \<le> col" "col \<le> uint e" "nat col < unat W" "unat ya < unat H" for col
      using that by (intro Suc.prems(5)) auto
    show "P (unat yb * unat W + nat col)"
      if "i + 1 \<le> col" "col \<le> uint e" "nat col < unat W" "unat yb < unat H" for col
      using that by (intro Suc.prems(6)) auto
  qed
  then obtain ps' where ps': "circle_span W H e ya yb color (i + 1) (Some ps2) = Inr (Some ps')"
      "only_changed P ps2 ps'"
    by blast
  have "circle_span W H e ya yb color i (Some ps) = Inr (Some ps')"
    using guard ps1(1) ps2(1) nx ps'(1)
    by (simp add: circle_span.simps [of W H e ya yb color i])
  moreover have "only_changed P ps ps'"
    using ps1(2) ps2(2) ps'(2) by (blast intro: only_changed_trans)
  ultimately show ?case by blast
qed

lemma in_disk_at:
  assumes col: "nat col < W" and c0: "0 \<le> col"
    and dx: "- c \<le> col - uint x" "col - uint x \<le> c"
    and dy: "int row - uint y = c' \<or> int row - uint y = - c'"
    and r: "c\<^sup>2 + c'\<^sup>2 \<le> (uint radius)\<^sup>2"
  shows "in_disk W x y radius (row * W + nat col)"
proof -
  from col have "(row * W + nat col) mod W = nat col" "(row * W + nat col) div W = row"
    by simp_all
  moreover have "(col - uint x)\<^sup>2 \<le> c\<^sup>2" using dx by (rule square_le)
  moreover have "(int row - uint y)\<^sup>2 = c'\<^sup>2" using dy by auto
  ultimately show ?thesis
    using r c0 by (simp add: in_disk_def within_radius_def)
qed

lemma circle_span_disk:
  assumes len: "length ps = unat W * unat H" "length ps < 2 ^ 64"
    and xr: "uint x + uint radius < 2 ^ 31" and yr: "uint y + uint radius \<le> 2 ^ 32"
    and H: "uint H + uint radius \<le> 2 ^ 32"
    and c: "0 \<le> c" "c < uint radius" and c': "0 \<le> c'" "c' < uint radius"
    and r: "c\<^sup>2 + c'\<^sup>2 \<le> (uint radius)\<^sup>2"
  shows "\<exists>ps'. circle_span W H (x + to_uint c) (y + to_uint c') (y - to_uint c') color
                 (to_int (x - to_uint c)) (Some ps) = Inr (Some ps') \<and>
               only_changed (in_disk (unat W) x y radius) ps ps'"
proof -
  let ?X = "uint x" and ?Y = "uint y" and ?R = "uint radius"
  have x0: "0 \<le> ?X" and y0: "0 \<le> ?Y" and h0: "0 \<le> uint H" by simp_all
  have y32: "?Y < 2 ^ 32" using uint_lt2p [of y] by simp
  have e: "uint (x + to_uint c) = ?X + c"
    using c xr x0 by (intro uint_plus_to_uint) auto
  have ya: "uint (y + to_uint c') = ?Y + c'"
    using c' yr y0 by (intro uint_plus_to_uint) auto
  show ?thesis
  proof (cases "c \<le> ?X")
    case True
    have "uint (x - to_uint c) = ?X - c"
      using True c xr by (intro uint_minus_to_uint) auto
    then have start: "to_int (x - to_uint c) = ?X - c"
      using c xr by (simp add: to_int_eq)
    have "\<exists>ps'. circle_span W H (x + to_uint c) (y + to_uint c') (y - to_uint c') color
                 (?X - c) (Some ps) = Inr (Some ps') \<and>
               only_changed (in_disk (unat W) x y radius) ps ps'"
    proof (rule circle_span_run [OF len])
      show "uint (x + to_uint c) < 2 ^ 31 - 1" using e c xr by simp
      show "0 \<le> ?X - c" using True by simp
      show "?X - c \<le> uint (x + to_uint c) + 1" using e c by simp
    next
      fix col
      assume col: "?X - c \<le> col" "col \<le> uint (x + to_uint c)" "nat col < unat W"
        and row: "unat (y + to_uint c') < unat H"
      have "int (unat (y + to_uint c')) - ?Y = c'" using ya by (simp add: uint_nat [symmetric])
      then show "in_disk (unat W) x y radius (unat (y + to_uint c') * unat W + nat col)"
        using col e True r by (intro in_disk_at [of col _ c _ _ _ c']) auto
    next
      fix col
      assume col: "?X - c \<le> col" "col \<le> uint (x + to_uint c)" "nat col < unat W"
        and row: "unat (y - to_uint c') < unat H"
      have "c' \<le> ?Y"
      proof (rule ccontr)
        assume "\<not> c' \<le> ?Y"
        from wrap_bounds_row [OF y0 this c'(2) H h0]
        have w: "?Y - c' < 0" "- (2 ^ 32) \<le> ?Y - c'" "uint H \<le> ?Y - c' + 2 ^ 32" .
        then have "uint (y - to_uint c') = ?Y - c' + 2 ^ 32"
          by (intro uint_minus_to_uint_wraps)
        with w(3) have "uint H \<le> uint (y - to_uint c')" by simp
        moreover from row have "int (unat (y - to_uint c')) < int (unat H)"
          by (simp only: of_nat_less_iff)
        then have "uint (y - to_uint c') < uint H" by (simp only: flip: uint_nat)
        ultimately show False by linarith
      qed
      then have "uint (y - to_uint c') = ?Y - c'"
        using c' y32 by (intro uint_minus_to_uint) auto
      then have "int (unat (y - to_uint c')) - ?Y = - c'" by (simp add: uint_nat [symmetric])
      then show "in_disk (unat W) x y radius (unat (y - to_uint c') * unat W + nat col)"
        using col e True r by (intro in_disk_at [of col _ c _ _ _ c']) auto
    qed
    with start show ?thesis by simp
  next
    case False
    from wrap_bounds [OF x0 this c(2) xr]
    have w: "?X - c < 0" "- (2 ^ 32) \<le> ?X - c" "2 ^ 31 \<le> ?X - c + 2 ^ 32" .
    then have "uint (x - to_uint c) = ?X - c + 2 ^ 32"
      by (intro uint_minus_to_uint_wraps)
    with e c xr w(3) have "\<not> x - to_uint c \<le> x + to_uint c"
      by (simp add: word_le_def)
    moreover have "to_uint (to_int (x - to_uint c)) = x - to_uint c"
      by (simp add: to_uint_def to_int_def)
    ultimately have "circle_span W H (x + to_uint c) (y + to_uint c') (y - to_uint c') color
                 (to_int (x - to_uint c)) (Some ps) = Inr (Some ps)"
      by (simp add: circle_span.simps [of W H "x + to_uint c"])
    then show ?thesis by (auto intro: only_changed_refl)
  qed
qed

lemma circle_loop_spec:
  assumes len: "length ps = unat W * unat H" "length ps < 2 ^ 64"
    and small: "uint radius < 2 ^ 30"
    and xr: "uint x + uint radius < 2 ^ 31" and yr: "uint y + uint radius \<le> 2 ^ 32"
    and H: "uint H + uint radius \<le> 2 ^ 32"
    and inv: "circle_inv (uint radius) (cx, cy, dx, dy, err)"
  shows "\<exists>ps'. circle_loop W H x y radius color (cx, cy, dx, dy, err) (Some ps) = Inr (Some ps') \<and>
               only_changed (in_disk (unat W) x y radius) ps ps'"
  using len inv
proof (induction "nat (cx - cy + 1)" arbitrary: cx cy dx dy err ps rule: less_induct)
  case less
  let ?P = "in_disk (unat W) x y radius"
  show ?case
  proof (cases "cy \<le> cx")
    case False
    then have "circle_loop W H x y radius color (cx, cy, dx, dy, err) (Some ps) = Inr (Some ps)"
      by (simp add: circle_loop.simps)
    then show ?thesis by (auto intro: only_changed_refl)
  next
    case True
    from less.prems(3) True have b: "0 \<le> cy" "cx < uint radius"
      and r: "cx * cx + cy * cy \<le> uint radius * uint radius"
      by (simp_all add: circle_inv_def)
    from r have r1: "cx\<^sup>2 + cy\<^sup>2 \<le> (uint radius)\<^sup>2" and r2: "cy\<^sup>2 + cx\<^sup>2 \<le> (uint radius)\<^sup>2"
      by (simp_all add: power2_eq_square)
    have bx: "0 \<le> cx" "cy < uint radius" using b True by simp_all
    from circle_span_disk [OF less.prems(1,2) xr yr H bx(1) b(2) b(1) bx(2) r1, of color]
    obtain ps1 where ps1:
        "circle_span W H (x + to_uint cx) (y + to_uint cy) (y - to_uint cy) color
           (to_int (x - to_uint cx)) (Some ps) = Inr (Some ps1)"
        "only_changed ?P ps ps1"
      by blast
    then have len1: "length ps1 = unat W * unat H" "length ps1 < 2 ^ 64"
      using less.prems(1,2) by (simp_all add: only_changed_def)
    from circle_span_disk [OF len1 xr yr H b(1) bx(2) bx(1) b(2) r2, of color]
    obtain ps2 where ps2:
        "circle_span W H (x + to_uint cy) (y + to_uint cx) (y - to_uint cx) color
           (to_int (x - to_uint cy)) (Some ps1) = Inr (Some ps2)"
        "only_changed ?P ps1 ps2"
      by blast
    then have len2: "length ps2 = unat W * unat H" "length ps2 < 2 ^ 64"
      using len1 by (simp_all add: only_changed_def)
    from circle_step_inv [OF less.prems(3) True small]
    obtain s' where s': "circle_step radius (cx, cy, dx, dy, err) = Inr s'"
        "circle_inv (uint radius) s'"
      by blast
    obtain cx' cy' dx' dy' err' where eq: "s' = (cx', cy', dx', dy', err')"
      by (cases s') auto
    with s'(1) have "cx' - cy' < cx - cy" by (auto dest: circle_step_decreases)
    with True have "nat (cx' - cy' + 1) < nat (cx - cy + 1)" by simp
    from less.hyps [OF this len2] s'(2) eq
    obtain ps' where ps': "circle_loop W H x y radius color s' (Some ps2) = Inr (Some ps')"
        "only_changed ?P ps2 ps'"
      by blast
    have "circle_loop W H x y radius color (cx, cy, dx, dy, err) (Some ps) = Inr (Some ps')"
      using True ps1(1) ps2(1) s'(1) ps'(1) by (simp add: circle_loop.simps)
    moreover have "only_changed ?P ps ps'"
      using ps1(2) ps2(2) ps'(2) by (blast intro: only_changed_trans)
    ultimately show ?thesis by blast
  qed
qed

lemma circle_in_range:
  assumes wf: "wf_texture tex"
    and small: "uint radius < 2 ^ 30"
    and xr: "uint x + uint radius < 2 ^ 31"
    and yr: "uint y + uint radius \<le> 2 ^ 32"
    and H: "uint (height tex) + uint radius \<le> 2 ^ 32"
  shows "\<exists>tex'. circle tex x y radius color = Inr tex' \<and>
           width tex' = width tex \<and> height tex' = height tex \<and> wf_texture tex' \<and>
           (\<forall>i j. i < unat (height tex) \<longrightarrow> j < unat (width tex) \<longrightarrow>
              pixel tex' j i \<noteq> pixel tex j i \<longrightarrow> within_radius x y radius j i)"
proof -
  let ?W = "unat (width tex)" and ?H = "unat (height tex)"
  let ?P = "in_disk ?W x y radius"
  let ?s0 = "(to_int (radius - 1), 0, 1, 1, to_int (to_uint 1 - push_bit 1 radius))"
  from wf obtain ps where ps: "rgb tex = Some ps" "length ps = ?W * ?H" "16 * length ps < 2 ^ 64"
    by (rule wf_textureE)
  have lt: "length ps < 2 ^ 64" using ps(3) by linarith
  have "\<exists>ps'. circle_loop (width tex) (height tex) x y radius color ?s0 (Some ps) = Inr (Some ps') \<and>
          only_changed ?P ps ps'"
  proof (cases "radius = 0")
    case True
    then have "circle_loop (width tex) (height tex) x y radius color ?s0 (Some ps) = Inr (Some ps)"
      by (simp add: to_int_def circle_loop.simps)
    then show ?thesis by (auto intro: only_changed_refl)
  next
    case False
    then have "0 < uint radius" by (simp add: word_greater_zero_iff uint_0_iff order_less_le)
    then have "circle_inv (uint radius) ?s0" using small by (rule circle_inv_start)
    from circle_loop_spec [OF ps(2) lt small xr yr H this] show ?thesis .
  qed
  then obtain ps' where ps':
      "circle_loop (width tex) (height tex) x y radius color ?s0 (Some ps) = Inr (Some ps')"
      "only_changed ?P ps ps'"
    by blast
  have res: "circle tex x y radius color = Inr (tex\<lparr>rgb := Some ps'\<rparr>)"
    using ps(1) ps'(1) by (simp add: circle_def)
  have len': "length ps' = length ps" using ps'(2) by (simp add: only_changed_def)
  have wf': "wf_texture (tex\<lparr>rgb := Some ps'\<rparr>)"
    using wf ps(1) len' by (rule wf_texture_same_length)
  have px: "within_radius x y radius j i"
    if "i < ?H" "j < ?W" "pixel (tex\<lparr>rgb := Some ps'\<rparr>) j i \<noteq> pixel tex j i" for i j
  proof -
    let ?k = "i * ?W + j"
    have k: "?k < length ps" using row_col_less [OF that(1,2)] ps(2) by simp
    from that(3) ps(1) have "ps' ! ?k \<noteq> ps ! ?k" by (simp add: pixel_def pixels_def)
    with ps'(2) k have "?P ?k" by (simp add: only_changed_def)
    with that(2) show ?thesis by (simp add: in_disk_def)
  qed
  from res wf' px show ?thesis by auto
qed

text \<open>
  C5, as the code has it. For a well-formed buffer, and every centre, radius and colour,
  \<open>_circle\<close> makes no store outside the buffer and none through a null pointer. Moreover,
  for a radius below \<open>2 ^ 30\<close> (so that \<open>dx\<close>, \<open>dy\<close> and \<open>err\<close> fit an \<open>int\<close>), a centre
  column with \<open>x + radius < 2 ^ 31\<close> (so that the \<open>int\<close> counter \<open>i\<close> does not overflow), and
  a centre row and a height with \<open>y + radius \<le> 2 ^ 32\<close> and \<open>height + radius \<le> 2 ^ 32\<close> (so
  that no \<open>unsigned int\<close> row wraps into the buffer), \<open>_circle\<close> returns without a fault,
  keeps the dimensions, and every pixel it modifies is within Euclidean distance \<open>radius\<close>
  of the centre.
\<close>

theorem circle_contained:
  assumes wf: "wf_texture tex"
  shows "circle tex x y radius color \<noteq> Inl OutOfBounds \<and>
         circle tex x y radius color \<noteq> Inl NullPointer \<and>
         (uint radius < 2 ^ 30 \<and> uint x + uint radius < 2 ^ 31 \<and>
          uint y + uint radius \<le> 2 ^ 32 \<and> uint (height tex) + uint radius \<le> 2 ^ 32 \<longrightarrow>
            (\<exists>tex'. circle tex x y radius color = Inr tex' \<and>
               width tex' = width tex \<and> height tex' = height tex \<and> wf_texture tex' \<and>
               (\<forall>i j. i < unat (height tex) \<longrightarrow> j < unat (width tex) \<longrightarrow>
                  pixel tex' j i \<noteq> pixel tex j i \<longrightarrow> within_radius x y radius j i)))"
  using circle_safe [OF wf, of x y radius color] circle_in_range [OF wf, of radius x y color]
  by blast

theorem circle_contained_witness:
  "wf_texture (solid 8 8 black) \<and> uint (3 :: uint) < 2 ^ 30 \<and>
   uint (4 :: uint) + uint (3 :: uint) < 2 ^ 31 \<and> uint (4 :: uint) + uint (3 :: uint) \<le> 2 ^ 32 \<and>
   uint (height (solid 8 8 black)) + uint (3 :: uint) \<le> 2 ^ 32 \<and>
   (\<exists>tex'. circle (solid 8 8 black) 4 4 3 white = Inr tex' \<and> wf_texture tex' \<and>
      pixel tex' 0 0 = black \<and> pixel tex' 7 7 = black \<and> pixel tex' 4 0 = black)"
proof -
  have wf: "wf_texture (solid 8 8 black)"
    by (simp add: wf_texture_def solid_def sizeof_color_t_def)
  have H: "uint (height (solid 8 8 black)) + uint (3 :: uint) \<le> 2 ^ 32" by (simp add: solid_def)
  have small: "uint (3 :: uint) < 2 ^ 30" and xr: "uint (4 :: uint) + uint (3 :: uint) < 2 ^ 31"
    and yr: "uint (4 :: uint) + uint (3 :: uint) \<le> 2 ^ 32"
    by simp_all
  from circle_contained [OF wf, of 4 4 3 white] small xr yr H
  obtain tex' where t: "circle (solid 8 8 black) 4 4 3 white = Inr tex'" "wf_texture tex'"
    and w: "width tex' = width (solid 8 8 black)"
    and px: "\<And>i j. i < unat (height (solid 8 8 black)) \<Longrightarrow> j < unat (width (solid 8 8 black)) \<Longrightarrow>
               pixel tex' j i \<noteq> pixel (solid 8 8 black) j i \<Longrightarrow> within_radius 4 4 3 j i"
    by blast
  have "pixel tex' 0 0 = black" "pixel tex' 7 7 = black" "pixel tex' 4 0 = black"
    using px [of 0 0] px [of 7 7] px [of 0 4] w
    by (auto simp: solid_def pixel_def pixels_def within_radius_def)
  with wf H small xr yr t show ?thesis by blast
qed

text \<open>
  C5 as stated fails for a centre row near \<open>2 ^ 32\<close>: the row \<open>y + cx\<close> is computed in
  \<open>unsigned int\<close> and wraps to 0, so a circle of radius 2 centred on \<open>(0, 4294967295)\<close>
  writes the pixel \<open>(0, 0)\<close> of a 1 by 1 buffer.
\<close>

theorem circle_row_wraps:
  "\<exists>tex'. circle (solid 1 1 black) 0 4294967295 2 white = Inr tex' \<and>
      pixel tex' 0 0 \<noteq> pixel (solid 1 1 black) 0 0 \<and> \<not> within_radius 0 4294967295 2 0 0"
proof -
  have "circle (solid 1 1 black) 0 4294967295 2 white =
          Inr \<lparr>width = 1, height = 1, rgb = Some [white]\<rparr>"
    by code_simp
  moreover have "pixel \<lparr>width = 1, height = 1, rgb = Some [white]\<rparr> 0 0 \<noteq> pixel (solid 1 1 black) 0 0"
    by (simp add: pixel_def pixels_def solid_def white_def black_def)
  moreover have "\<not> within_radius 0 4294967295 2 0 0"
    by (simp add: within_radius_def)
  ultimately show ?thesis by simp
qed

section \<open>Mirror and flip\<close>

lemma mirror_index_less: "k < W * H \<Longrightarrow> mirror_index W k < W * H"
  unfolding mirror_index_def
  by (intro row_col_less) (auto dest: div_less_rows)

lemma mirror_index_twice: "k < W * H \<Longrightarrow> mirror_index W (mirror_index W k) = k"
proof -
  assume k: "k < W * H"
  then have W: "0 < W" by (rule div_less_rows)
  then have c: "W - 1 - k mod W < W" by simp
  have m: "k mod W < W" using W by simp
  from c have "mirror_index W k div W = k div W" "mirror_index W k mod W = W - 1 - k mod W"
    by (simp_all add: mirror_index_def)
  then have "mirror_index W (mirror_index W k) = (k div W) * W + (W - 1 - (W - 1 - k mod W))"
    by (simp add: mirror_index_def)
  also have "W - 1 - (W - 1 - k mod W) = k mod W" using m by simp
  finally show ?thesis by simp
qed

lemma flip_index_less: "k < W * H \<Longrightarrow> flip_index W H k < W * H"
  unfolding flip_index_def
  by (intro row_col_less) (auto dest: div_less_rows)

lemma flip_index_twice: "k < W * H \<Longrightarrow> flip_index W H (flip_index W H k) = k"
proof -
  assume k: "k < W * H"
  then have W: "0 < W" and q: "k div W < H" by (auto dest: div_less_rows)
  have m: "k mod W < W" using W by simp
  from m have "flip_index W H k div W = H - 1 - k div W" "flip_index W H k mod W = k mod W"
    by (simp_all add: flip_index_def)
  then have "flip_index W H (flip_index W H k) = (H - 1 - (H - 1 - k div W)) * W + k mod W"
    by (simp add: flip_index_def)
  also have "H - 1 - (H - 1 - k div W) = k div W" using q by simp
  finally show ?thesis by simp
qed

lemma copy_back_spec:
  assumes "unat n = length ms" and "length ps = length ms"
  shows "\<exists>ps'. copy_back n (Some ms) i (Some ps) = Inr (Some ps') \<and> length ps' = length ps \<and>
           (\<forall>k < length ps. ps' ! k = (if unat i \<le> k then ms ! k else ps ! k))"
  using assms
proof (induction "unat n - unat i" arbitrary: i ps)
  case 0
  then have "\<not> i < n" by (simp add: word_less_nat_alt)
  with 0 show ?case by (simp add: copy_back.simps [of n _ i])
next
  case (Suc d)
  then have lt: "i < n" by (simp add: word_less_nat_alt)
  then have inb: "unat i < length ms" using Suc.prems by (simp add: word_less_nat_alt)
  have si: "unat (i + 1) = Suc (unat i)" using lt by (rule unat_succ_less)
  with Suc.hyps(2) have d: "d = unat n - unat (i + 1)" by simp
  from Suc.hyps(1) [OF d, of "ps[unat i := ms ! unat i]"] Suc.prems
  obtain ps' where ps':
      "copy_back n (Some ms) (i + 1) (Some (ps[unat i := ms ! unat i])) = Inr (Some ps')"
      "length ps' = length ps"
      "\<forall>k < length ps. ps' ! k =
         (if unat (i + 1) \<le> k then ms ! k else ps[unat i := ms ! unat i] ! k)"
    by auto
  have "\<forall>k < length ps. ps' ! k = (if unat i \<le> k then ms ! k else ps ! k)"
  proof (intro allI impI)
    fix k assume k: "k < length ps"
    show "ps' ! k = (if unat i \<le> k then ms ! k else ps ! k)"
    proof (cases "k = unat i")
      case True
      with ps'(3) k si show ?thesis by simp
    next
      case False
      with ps'(3) k si show ?thesis by auto
    qed
  qed
  with ps'(1,2) lt inb Suc.prems show ?case
    by (simp add: copy_back.simps [of n _ i] load_def store_def)
qed

lemma copy_back_all:
  assumes "unat n = length ms" and "length ps = length ms"
  shows "copy_back n (Some ms) 0 (Some ps) = Inr (Some ms)"
proof -
  from copy_back_spec [OF assms, of 0]
  obtain ps' where ps': "copy_back n (Some ms) 0 (Some ps) = Inr (Some ps')"
      "length ps' = length ps" "\<forall>k < length ps. ps' ! k = ms ! k"
    by auto
  then have "ps' = ms" using assms(2) by (intro nth_equalityI) auto
  with ps'(1) show ?thesis by simp
qed

lemma mirror_cols_spec:
  assumes "length src = unat W * unat H" and "length ms = length src"
    and "length src < 2 ^ 64" and "unat y < unat H"
  shows "\<exists>ms'. mirror_cols W (Some src) y x (Some ms) = Inr (Some ms') \<and>
           length ms' = length ms \<and>
           (\<forall>k < length ms. ms' ! k =
              (if k div unat W = unat y \<and> unat x \<le> k mod unat W
               then src ! mirror_index (unat W) k else ms ! k))"
  using assms
proof (induction "unat W - unat x" arbitrary: x ms)
  case 0
  then have ge: "unat W \<le> unat x" by simp
  then have "\<not> x < W" by (simp add: word_less_nat_alt)
  then have "mirror_cols W (Some src) y x (Some ms) = Inr (Some ms)"
    by (simp add: mirror_cols.simps [of W _ y x])
  moreover have "\<not> unat x \<le> k mod unat W" if "k < length ms" for k
  proof -
    from that 0 have "k < unat W * unat H" by simp
    then have "k mod unat W < unat W" by (rule div_less_rows)
    with ge show ?thesis by simp
  qed
  ultimately show ?case by simp
next
  case (Suc d)
  then have lt: "x < W" by (simp add: word_less_nat_alt)
  then have ux: "unat x < unat W" by (simp add: word_less_nat_alt)
  let ?k = "unat y * unat W + unat x"
  let ?s = "unat y * unat W + (unat W - 1 - unat x)"
  have kb: "?k < length src"
    using row_col_less [OF Suc.prems(4) ux] Suc.prems(1) by simp
  have "unat W - 1 - unat x < unat W" using ux by simp
  from row_col_less [OF Suc.prems(4) this] have sb: "?s < length src"
    using Suc.prems(1) by simp
  have widx: "unat (y * W + x) = ?k"
    using kb Suc.prems(3) by (intro unat_mult_add) simp
  have "unat y * unat W + unat (W - 1 - x) < 2 ^ 64"
    using sb Suc.prems(3) lt by (simp add: unat_last_minus)
  then have ridx: "unat (y * W + (W - 1 - x)) = ?s"
    using lt by (simp add: unat_mult_add unat_last_minus)
  have ld: "load (Some src) (y * W + (W - 1 - x)) = Inr (src ! ?s)"
    using ridx sb by (simp add: load_def)
  have st: "store (Some ms) (y * W + x) (src ! ?s) = Inr (Some (ms[?k := src ! ?s]))"
    using widx kb Suc.prems(2) by (simp add: store_def)
  have sx: "unat (x + 1) = Suc (unat x)" using lt by (rule unat_succ_less)
  with Suc.hyps(2) have d: "d = unat W - unat (x + 1)" by simp
  from Suc.hyps(1) [OF d, of "ms[?k := src ! ?s]"] Suc.prems
  obtain ms' where ms':
      "mirror_cols W (Some src) y (x + 1) (Some (ms[?k := src ! ?s])) = Inr (Some ms')"
      "length ms' = length ms"
      "\<forall>k < length ms. ms' ! k =
         (if k div unat W = unat y \<and> unat (x + 1) \<le> k mod unat W
          then src ! mirror_index (unat W) k else ms[?k := src ! ?s] ! k)"
    by auto
  have kdiv: "?k div unat W = unat y" and kmod: "?k mod unat W = unat x"
    using ux by simp_all
  have "\<forall>k < length ms. ms' ! k =
         (if k div unat W = unat y \<and> unat x \<le> k mod unat W
          then src ! mirror_index (unat W) k else ms ! k)"
  proof (intro allI impI)
    fix k assume k: "k < length ms"
    show "ms' ! k = (if k div unat W = unat y \<and> unat x \<le> k mod unat W
                     then src ! mirror_index (unat W) k else ms ! k)"
    proof (cases "k = ?k")
      case True
      have "mirror_index (unat W) ?k = ?s"
        unfolding mirror_index_def kdiv kmod by simp
      with True ms'(3) k sx kdiv kmod show ?thesis by simp
    next
      case False
      have "k mod unat W \<noteq> unat x" if "k div unat W = unat y"
      proof
        assume "k mod unat W = unat x"
        with that have "k = ?k" using div_mult_mod_eq [of k "unat W"] by simp
        with False show False by simp
      qed
      then have "(k div unat W = unat y \<and> unat (x + 1) \<le> k mod unat W) \<longleftrightarrow>
                 (k div unat W = unat y \<and> unat x \<le> k mod unat W)"
        using sx by auto
      with False ms'(3) k show ?thesis by simp
    qed
  qed
  with ms'(1,2) lt ld st show ?case
    by (simp add: mirror_cols.simps [of W _ y x])
qed

lemma mirror_rows_spec:
  assumes "length src = unat W * unat H" and "length ms = length src"
    and "length src < 2 ^ 64"
  shows "\<exists>ms'. mirror_rows W H (Some src) y (Some ms) = Inr (Some ms') \<and>
           length ms' = length ms \<and>
           (\<forall>k < length ms. ms' ! k =
              (if unat y \<le> k div unat W then src ! mirror_index (unat W) k else ms ! k))"
  using assms
proof (induction "unat H - unat y" arbitrary: y ms)
  case 0
  then have ge: "unat H \<le> unat y" by simp
  then have "\<not> y < H" by (simp add: word_less_nat_alt)
  then have "mirror_rows W H (Some src) y (Some ms) = Inr (Some ms)"
    by (simp add: mirror_rows.simps [of W H _ y])
  moreover have "\<not> unat y \<le> k div unat W" if "k < length ms" for k
  proof -
    from that 0 have "k < unat W * unat H" by simp
    then have "k div unat W < unat H" by (rule div_less_rows)
    with ge show ?thesis by simp
  qed
  ultimately show ?case by simp
next
  case (Suc d)
  then have lt: "y < H" by (simp add: word_less_nat_alt)
  then have uy: "unat y < unat H" by (simp add: word_less_nat_alt)
  from mirror_cols_spec [OF Suc.prems(1,2,3) uy, of 0]
  obtain ms1 where ms1: "mirror_cols W (Some src) y 0 (Some ms) = Inr (Some ms1)"
      "length ms1 = length ms"
      "\<forall>k < length ms. ms1 ! k =
         (if k div unat W = unat y then src ! mirror_index (unat W) k else ms ! k)"
    by auto
  have sy: "unat (y + 1) = Suc (unat y)" using lt by (rule unat_succ_less)
  with Suc.hyps(2) have d: "d = unat H - unat (y + 1)" by simp
  from Suc.hyps(1) [OF d, of ms1] Suc.prems ms1(2)
  obtain ms' where ms': "mirror_rows W H (Some src) (y + 1) (Some ms1) = Inr (Some ms')"
      "length ms' = length ms"
      "\<forall>k < length ms. ms' ! k =
         (if unat (y + 1) \<le> k div unat W then src ! mirror_index (unat W) k else ms1 ! k)"
    by auto
  have "\<forall>k < length ms. ms' ! k =
         (if unat y \<le> k div unat W then src ! mirror_index (unat W) k else ms ! k)"
  proof (intro allI impI)
    fix k assume k: "k < length ms"
    from ms'(3) ms1(3) k sy show "ms' ! k =
        (if unat y \<le> k div unat W then src ! mirror_index (unat W) k else ms ! k)"
      by (cases "k div unat W = unat y") auto
  qed
  with ms'(1,2) ms1(1) lt show ?case
    by (simp add: mirror_rows.simps [of W H _ y])
qed

lemma malloc_scratch:
  fixes W H :: size_t
  assumes "m (W * H * sizeof_color_t) = Some junk" and "16 * (unat W * unat H) < 2 ^ 64"
  shows "malloc m (W * H * sizeof_color_t) = Some (replicate (unat W * unat H) junk)"
    and "unat (W * H) = unat W * unat H"
proof -
  from assms(2) have "unat W * unat H < 2 ^ 64" by linarith
  then show wh: "unat (W * H) = unat W * unat H" by (simp add: unat_word_ariths)
  with assms(2) have "unat (W * H * sizeof_color_t) = unat W * unat H * 16"
    by (simp add: sizeof_color_t_def unat_word_ariths)
  with assms(1) show "malloc m (W * H * sizeof_color_t) = Some (replicate (unat W * unat H) junk)"
    by (simp add: malloc_def)
qed

lemma mirror_spec:
  assumes "rgb tex = Some ps" and "length ps = unat (width tex) * unat (height tex)"
    and "16 * length ps < 2 ^ 64"
    and "m (width tex * height tex * sizeof_color_t) \<noteq> None"
  shows "mirror m tex =
           Inr (tex\<lparr>rgb := Some (map (\<lambda>k. ps ! mirror_index (unat (width tex)) k) [0..<length ps])\<rparr>)"
proof -
  let ?W = "width tex" and ?H = "height tex"
  from assms(4) obtain junk where "m (?W * ?H * sizeof_color_t) = Some junk" by auto
  from malloc_scratch [of m ?W ?H junk, OF this] assms(2,3)
  have blk: "malloc m (?W * ?H * sizeof_color_t) = Some (replicate (length ps) junk)"
    and n: "unat (?W * ?H) = length ps"
    by simp_all
  have lt: "length ps < 2 ^ 64" using assms(3) by linarith
  from mirror_rows_spec [OF assms(2) _ lt, of "replicate (length ps) junk" 0]
  obtain ms where ms: "mirror_rows ?W ?H (Some ps) 0 (Some (replicate (length ps) junk)) = Inr (Some ms)"
      "length ms = length ps"
      "\<forall>k < length ps. ms ! k = ps ! mirror_index (unat ?W) k"
    by auto
  then have eq: "ms = map (\<lambda>k. ps ! mirror_index (unat ?W) k) [0..<length ps]"
    by (intro nth_equalityI) auto
  have "copy_back (?W * ?H) (Some ms) 0 (Some ps) = Inr (Some ms)"
    using n ms(2) by (intro copy_back_all) auto
  with blk ms(1) assms(1) eq show ?thesis by (simp add: mirror_def)
qed

lemma flip_cols_spec:
  assumes "length src = unat W * unat H" and "length fs = length src"
    and "length src < 2 ^ 64" and "unat y < unat H"
  shows "\<exists>fs'. flip_cols W H (Some src) y x (Some fs) = Inr (Some fs') \<and>
           length fs' = length fs \<and>
           (\<forall>k < length fs. fs' ! k =
              (if k div unat W = unat y \<and> unat x \<le> k mod unat W
               then src ! flip_index (unat W) (unat H) k else fs ! k))"
  using assms
proof (induction "unat W - unat x" arbitrary: x fs)
  case 0
  then have ge: "unat W \<le> unat x" by simp
  then have "\<not> x < W" by (simp add: word_less_nat_alt)
  then have "flip_cols W H (Some src) y x (Some fs) = Inr (Some fs)"
    by (simp add: flip_cols.simps [of W H _ y x])
  moreover have "\<not> unat x \<le> k mod unat W" if "k < length fs" for k
  proof -
    from that 0 have "k < unat W * unat H" by simp
    then have "k mod unat W < unat W" by (rule div_less_rows)
    with ge show ?thesis by simp
  qed
  ultimately show ?case by simp
next
  case (Suc d)
  then have lt: "x < W" by (simp add: word_less_nat_alt)
  then have ux: "unat x < unat W" by (simp add: word_less_nat_alt)
  let ?k = "unat y * unat W + unat x"
  let ?s = "(unat H - 1 - unat y) * unat W + unat x"
  have yH: "y < H" using Suc.prems(4) by (simp add: word_less_nat_alt)
  have kb: "?k < length src"
    using row_col_less [OF Suc.prems(4) ux] Suc.prems(1) by simp
  have "unat H - 1 - unat y < unat H" using Suc.prems(4) by simp
  from row_col_less [OF this ux] have sb: "?s < length src"
    using Suc.prems(1) by simp
  have widx: "unat (y * W + x) = ?k"
    using kb Suc.prems(3) by (intro unat_mult_add) simp
  have "unat (H - 1 - y) * unat W + unat x < 2 ^ 64"
    using sb Suc.prems(3) yH by (simp add: unat_last_minus)
  then have ridx: "unat ((H - 1 - y) * W + x) = ?s"
    using yH by (simp add: unat_mult_add unat_last_minus)
  have ld: "load (Some src) ((H - 1 - y) * W + x) = Inr (src ! ?s)"
    using ridx sb by (simp add: load_def)
  have st: "store (Some fs) (y * W + x) (src ! ?s) = Inr (Some (fs[?k := src ! ?s]))"
    using widx kb Suc.prems(2) by (simp add: store_def)
  have sx: "unat (x + 1) = Suc (unat x)" using lt by (rule unat_succ_less)
  with Suc.hyps(2) have d: "d = unat W - unat (x + 1)" by simp
  from Suc.hyps(1) [OF d, of "fs[?k := src ! ?s]"] Suc.prems
  obtain fs' where fs':
      "flip_cols W H (Some src) y (x + 1) (Some (fs[?k := src ! ?s])) = Inr (Some fs')"
      "length fs' = length fs"
      "\<forall>k < length fs. fs' ! k =
         (if k div unat W = unat y \<and> unat (x + 1) \<le> k mod unat W
          then src ! flip_index (unat W) (unat H) k else fs[?k := src ! ?s] ! k)"
    by auto
  have kdiv: "?k div unat W = unat y" and kmod: "?k mod unat W = unat x"
    using ux by simp_all
  have "\<forall>k < length fs. fs' ! k =
         (if k div unat W = unat y \<and> unat x \<le> k mod unat W
          then src ! flip_index (unat W) (unat H) k else fs ! k)"
  proof (intro allI impI)
    fix k assume k: "k < length fs"
    show "fs' ! k = (if k div unat W = unat y \<and> unat x \<le> k mod unat W
                     then src ! flip_index (unat W) (unat H) k else fs ! k)"
    proof (cases "k = ?k")
      case True
      have "flip_index (unat W) (unat H) ?k = ?s"
        unfolding flip_index_def kdiv kmod by simp
      with True fs'(3) k sx kdiv kmod show ?thesis by simp
    next
      case False
      have "k mod unat W \<noteq> unat x" if "k div unat W = unat y"
      proof
        assume "k mod unat W = unat x"
        with that have "k = ?k" using div_mult_mod_eq [of k "unat W"] by simp
        with False show False by simp
      qed
      then have "(k div unat W = unat y \<and> unat (x + 1) \<le> k mod unat W) \<longleftrightarrow>
                 (k div unat W = unat y \<and> unat x \<le> k mod unat W)"
        using sx by auto
      with False fs'(3) k show ?thesis by simp
    qed
  qed
  with fs'(1,2) lt ld st show ?case
    by (simp add: flip_cols.simps [of W H _ y x])
qed

lemma flip_rows_spec:
  assumes "length src = unat W * unat H" and "length fs = length src"
    and "length src < 2 ^ 64"
  shows "\<exists>fs'. flip_rows W H (Some src) y (Some fs) = Inr (Some fs') \<and>
           length fs' = length fs \<and>
           (\<forall>k < length fs. fs' ! k =
              (if unat y \<le> k div unat W then src ! flip_index (unat W) (unat H) k else fs ! k))"
  using assms
proof (induction "unat H - unat y" arbitrary: y fs)
  case 0
  then have ge: "unat H \<le> unat y" by simp
  then have "\<not> y < H" by (simp add: word_less_nat_alt)
  then have "flip_rows W H (Some src) y (Some fs) = Inr (Some fs)"
    by (simp add: flip_rows.simps [of W H _ y])
  moreover have "\<not> unat y \<le> k div unat W" if "k < length fs" for k
  proof -
    from that 0 have "k < unat W * unat H" by simp
    then have "k div unat W < unat H" by (rule div_less_rows)
    with ge show ?thesis by simp
  qed
  ultimately show ?case by simp
next
  case (Suc d)
  then have lt: "y < H" by (simp add: word_less_nat_alt)
  then have uy: "unat y < unat H" by (simp add: word_less_nat_alt)
  from flip_cols_spec [OF Suc.prems(1,2,3) uy, of 0]
  obtain fs1 where fs1: "flip_cols W H (Some src) y 0 (Some fs) = Inr (Some fs1)"
      "length fs1 = length fs"
      "\<forall>k < length fs. fs1 ! k =
         (if k div unat W = unat y then src ! flip_index (unat W) (unat H) k else fs ! k)"
    by auto
  have sy: "unat (y + 1) = Suc (unat y)" using lt by (rule unat_succ_less)
  with Suc.hyps(2) have d: "d = unat H - unat (y + 1)" by simp
  from Suc.hyps(1) [OF d, of fs1] Suc.prems fs1(2)
  obtain fs' where fs': "flip_rows W H (Some src) (y + 1) (Some fs1) = Inr (Some fs')"
      "length fs' = length fs"
      "\<forall>k < length fs. fs' ! k =
         (if unat (y + 1) \<le> k div unat W then src ! flip_index (unat W) (unat H) k
          else fs1 ! k)"
    by auto
  have "\<forall>k < length fs. fs' ! k =
         (if unat y \<le> k div unat W then src ! flip_index (unat W) (unat H) k else fs ! k)"
  proof (intro allI impI)
    fix k assume k: "k < length fs"
    from fs'(3) fs1(3) k sy show "fs' ! k =
        (if unat y \<le> k div unat W then src ! flip_index (unat W) (unat H) k else fs ! k)"
      by (cases "k div unat W = unat y") auto
  qed
  with fs'(1,2) fs1(1) lt show ?case
    by (simp add: flip_rows.simps [of W H _ y])
qed

lemma flip_spec:
  assumes "rgb tex = Some ps" and "length ps = unat (width tex) * unat (height tex)"
    and "16 * length ps < 2 ^ 64"
    and "m (width tex * height tex * sizeof_color_t) \<noteq> None"
  shows "flip m tex =
           Inr (tex\<lparr>rgb := Some (map (\<lambda>k. ps ! flip_index (unat (width tex)) (unat (height tex)) k)
                                   [0..<length ps])\<rparr>)"
proof -
  let ?W = "width tex" and ?H = "height tex"
  from assms(4) obtain junk where "m (?W * ?H * sizeof_color_t) = Some junk" by auto
  from malloc_scratch [of m ?W ?H junk, OF this] assms(2,3)
  have blk: "malloc m (?W * ?H * sizeof_color_t) = Some (replicate (length ps) junk)"
    and n: "unat (?W * ?H) = length ps"
    by simp_all
  have lt: "length ps < 2 ^ 64" using assms(3) by linarith
  from flip_rows_spec [OF assms(2) _ lt, of "replicate (length ps) junk" 0]
  obtain fs where fs: "flip_rows ?W ?H (Some ps) 0 (Some (replicate (length ps) junk)) = Inr (Some fs)"
      "length fs = length ps"
      "\<forall>k < length ps. fs ! k = ps ! flip_index (unat ?W) (unat ?H) k"
    by auto
  then have eq: "fs = map (\<lambda>k. ps ! flip_index (unat ?W) (unat ?H) k) [0..<length ps]"
    by (intro nth_equalityI) auto
  have "copy_back (?W * ?H) (Some fs) 0 (Some ps) = Inr (Some fs)"
    using n fs(2) by (intro copy_back_all) auto
  with blk fs(1) assms(1) eq show ?thesis by (simp add: flip_def)
qed

text \<open>
  C7. For a well-formed buffer, and when the scratch allocation of each call is granted,
  \<open>_mirror\<close> applied twice returns the buffer it started from, and so does \<open>_flip\<close>
  applied twice: dimensions and every pixel are restored.
\<close>

theorem mirror_flip_involutions:
  assumes wf: "wf_texture tex"
    and m1: "m1 (width tex * height tex * sizeof_color_t) \<noteq> None"
    and m2: "m2 (width tex * height tex * sizeof_color_t) \<noteq> None"
  shows "(\<exists>t. mirror m1 tex = Inr t \<and> mirror m2 t = Inr tex) \<and>
         (\<exists>t. flip m1 tex = Inr t \<and> flip m2 t = Inr tex)"
proof -
  let ?W = "unat (width tex)" and ?H = "unat (height tex)"
  from wf obtain ps where ps: "rgb tex = Some ps" "length ps = ?W * ?H" "16 * length ps < 2 ^ 64"
    by (rule wf_textureE)
  have same: "tex\<lparr>rgb := Some ps\<rparr> = tex" using ps(1) by simp
  let ?ms = "map (\<lambda>k. ps ! mirror_index ?W k) [0..<length ps]"
  let ?fs = "map (\<lambda>k. ps ! flip_index ?W ?H k) [0..<length ps]"
  have a: "mirror m1 tex = Inr (tex\<lparr>rgb := Some ?ms\<rparr>)"
    using ps m1 by (rule mirror_spec)
  have "mirror m2 (tex\<lparr>rgb := Some ?ms\<rparr>) =
          Inr (tex\<lparr>rgb := Some (map (\<lambda>k. ?ms ! mirror_index ?W k) [0..<length ?ms])\<rparr>)"
    using mirror_spec [of "tex\<lparr>rgb := Some ?ms\<rparr>" ?ms m2] ps m2 by simp
  moreover have "map (\<lambda>k. ?ms ! mirror_index ?W k) [0..<length ?ms] = ps"
  proof (intro nth_equalityI)
    fix k assume "k < length (map (\<lambda>k. ?ms ! mirror_index ?W k) [0..<length ?ms])"
    then have k: "k < ?W * ?H" using ps(2) by simp
    then have "mirror_index ?W k < length ps" using ps(2) by (simp add: mirror_index_less)
    with k ps(2) show "map (\<lambda>k. ?ms ! mirror_index ?W k) [0..<length ?ms] ! k = ps ! k"
      by (simp add: mirror_index_twice)
  qed simp
  ultimately have b: "mirror m2 (tex\<lparr>rgb := Some ?ms\<rparr>) = Inr tex"
    using same by simp
  have c: "flip m1 tex = Inr (tex\<lparr>rgb := Some ?fs\<rparr>)"
    using ps m1 by (rule flip_spec)
  have "flip m2 (tex\<lparr>rgb := Some ?fs\<rparr>) =
          Inr (tex\<lparr>rgb := Some (map (\<lambda>k. ?fs ! flip_index ?W ?H k) [0..<length ?fs])\<rparr>)"
    using flip_spec [of "tex\<lparr>rgb := Some ?fs\<rparr>" ?fs m2] ps m2 by simp
  moreover have "map (\<lambda>k. ?fs ! flip_index ?W ?H k) [0..<length ?fs] = ps"
  proof (intro nth_equalityI)
    fix k assume "k < length (map (\<lambda>k. ?fs ! flip_index ?W ?H k) [0..<length ?fs])"
    then have k: "k < ?W * ?H" using ps(2) by simp
    then have "flip_index ?W ?H k < length ps" using ps(2) by (simp add: flip_index_less)
    with k ps(2) show "map (\<lambda>k. ?fs ! flip_index ?W ?H k) [0..<length ?fs] ! k = ps ! k"
      by (simp add: flip_index_twice)
  qed simp
  ultimately have d: "flip m2 (tex\<lparr>rgb := Some ?fs\<rparr>) = Inr tex"
    using same by simp
  from a b c d show ?thesis by blast
qed

theorem mirror_flip_involutions_witness:
  "wf_texture stripes \<and>
   (\<lambda>n. Some black) (width stripes * height stripes * sizeof_color_t) \<noteq> None \<and>
   (\<exists>t. mirror (\<lambda>n. Some black) stripes = Inr t \<and> mirror (\<lambda>n. Some black) t = Inr stripes) \<and>
   (\<exists>t. flip (\<lambda>n. Some black) stripes = Inr t \<and> flip (\<lambda>n. Some black) t = Inr stripes)"
proof -
  have wf: "wf_texture stripes"
    by (simp add: wf_texture_def stripes_def sizeof_color_t_def)
  from mirror_flip_involutions [OF wf, of "\<lambda>n. Some black" "\<lambda>n. Some black"] wf
  show ?thesis by simp
qed

end
